theory Spec2Isabelle
  imports Main
begin

section \<open>The upload batch coordinator (upload\_state.ts)\<close>

text \<open>
  A shallow embedding of the class \<open>UploadState\<close> of
  \<^verbatim>\<open>x-pack/plugins/files/public/components/upload_file/upload_state.ts\<close>.
  The class is written with reactive streams; the embedding keeps, for every subject of
  the class, the value it holds or the values it has emitted, and turns every method and
  every settlement of a backend promise into a function from state to state. JavaScript
  runs each of them to completion before the next one starts, so an execution of the
  class is a sequence of such steps.
\<close>

subsection \<open>Data\<close>

text \<open>\<open>FileState.status\<close> (line 37).\<close>

datatype status = Idle | Uploading | Uploaded | Upload_failed

text \<open>
  A JavaScript value that is thrown, or that a promise rejects with, reduced to what the
  class does with it: line 201 reads its \<open>message\<close> and line 82 tests it for truth.
  \<^item> \<open>Error m\<close>: an \<open>Error\<close> (or another object) whose \<open>message\<close> is the string
    \<open>m\<close>; it is truthy;
  \<^item> \<open>Other b\<close>: any other value except \<open>undefined\<close> and \<open>null\<close>; reading its
    \<open>message\<close> gives no string, and \<open>b\<close> tells whether the value is truthy;
  \<^item> \<open>Nullish\<close>: \<open>undefined\<close> or \<open>null\<close>; reading its \<open>message\<close> throws a
    \<open>TypeError\<close>.
\<close>

datatype js_value = Error string | Other bool | Nullish

fun readable :: "js_value \<Rightarrow> bool" where
  "readable Nullish = False"
| "readable _ = True"

fun message :: "js_value \<Rightarrow> string option" where
  "message (Error m) = Some m"
| "message _ = None"

fun truthy :: "js_value \<Rightarrow> bool" where
  "truthy (Error m) = True"
| "truthy (Other b) = b"
| "truthy Nullish = False"

text \<open>A browser \<open>File\<close>: the class reads \<open>name\<close> (line 169) and \<open>size\<close> (line 106).\<close>

record js_file =
  file_name :: string
  file_size :: nat

text \<open>\<open>FileState\<close> (lines 35-40); the optional fields are options, \<open>None\<close> for
  \<open>undefined\<close>.\<close>

record file_state =
  file_obj :: js_file
  status :: status
  id_opt :: "string option"
  error :: "js_value option"

text \<open>\<open>DoneNotification\<close> (lines 44-47). Line 94 writes \<open>id: file.id!\<close>; the assertion
  exists for the type checker only, so the entry carries whatever the record holds.\<close>

record done_notification =
  dn_id :: "string option"
  dn_kind :: string

text \<open>The part of \<open>FileKind\<close> that the class reads: \<open>id\<close> and the optional
  \<open>maxSizeBytes\<close>.\<close>

record file_kind =
  kind_id :: string
  maxSizeBytes :: "int option"

text \<open>
  The constructor's arguments that the embedding needs (lines 65-69), and the two helpers
  that the class imports from files outside the sources at hand, taken as parameters:
  \<^item> \<open>fileTooLarge m\<close> stands for \<open>i18nTexts.fileTooLarge(String(m))\<close> (line 108);
  \<^item> \<open>parseFileName n\<close> stands for the \<open>{name, mime}\<close> of \<open>parseFileName(n)\<close>
    (line 169).
\<close>

record config =
  fileKind :: file_kind
  allowRepeatedUploads :: bool
  fileTooLarge :: "int \<Rightarrow> string"
  parseFileName :: "string \<Rightarrow> string \<times> string option"

text \<open>The calls made on the backend client, with their arguments: \<open>create\<close>
  (kind, name, mimeType, meta; lines 172-177), \<open>upload\<close> (body, id, kind; lines 188-193)
  and \<open>delete\<close> (id, kind; line 207). The metadata, of type \<open>unknown\<close> in the source, is
  an optional string here.\<close>

datatype client_call =
    Create string string "string option" "string option"
  | Upload js_file string string
  | Delete string string

text \<open>What the observable returned by \<open>upload\<close> (line 234) has done so far. It replays
  (\<open>shareReplay\<close>, line 229), so a subscriber sees this whenever it subscribes.\<close>

datatype observable_state =
    Not_created
  | Pending
  | Completed_with_value
  | Completed_empty
  | Errored

text \<open>
  The state of an \<open>UploadState\<close> object and of the attempts it has started:
  \<^item> \<open>files\<close>: the current value of every state subject of \<open>files$$\<close>, in batch order;
  \<^item> \<open>error_log\<close>: the values passed to \<open>error$.next\<close>, oldest first, after the initial
    \<open>undefined\<close> of the \<open>BehaviorSubject\<close> (line 61);
  \<^item> \<open>uploading\<close>: the value of \<open>uploading$\<close> (line 62);
  \<^item> \<open>done_log\<close>: the values emitted on \<open>done$\<close>, oldest first (line 63);
  \<^item> \<open>clear_log\<close>: how many times \<open>clear$\<close> has emitted (line 60);
  \<^item> \<open>calls\<close>: the calls made on the client, oldest first;
  \<^item> \<open>creating\<close>: the positions of the records whose \<open>create\<close> promise is pending;
  \<^item> \<open>racing\<close>: the positions of the records whose attempt waits in the \<open>race\<close> of
    line 181, each with the \<open>id\<close> of its \<open>uploadTarget\<close>, in the order in which they
    subscribed to the abort signal;
  \<^item> \<open>aborted\<close>: whether the \<open>ReplaySubject\<close> of line 217 holds a value;
  \<^item> \<open>upload_obs\<close>: the observable returned by the latest call of \<open>upload\<close>.
\<close>

record upload_state =
  files :: "file_state list"
  error_log :: "js_value option list"
  uploading :: bool
  done_log :: "done_notification list option list"
  clear_log :: nat
  calls :: "client_call list"
  creating :: "nat list"
  racing :: "(nat \<times> string) list"
  aborted :: bool
  upload_obs :: observable_state

text \<open>The object after its constructor has run (lines 54-63).\<close>

definition init :: upload_state where
  "init = \<lparr> files = [], error_log = [], uploading = False, done_log = [], clear_log = 0,
            calls = [], creating = [], racing = [], aborted = False,
            upload_obs = Not_created \<rparr>"

text \<open>The value of the \<open>BehaviorSubject\<close> \<open>error$\<close>: its last emission, or the initial
  \<open>undefined\<close>.\<close>

definition error_value :: "upload_state \<Rightarrow> js_value option" where
  "error_value s = (if error_log s = [] then None else last (error_log s))"

subsection \<open>Aggregate state (constructor, lines 70-96)\<close>

text \<open>
  \<open>latestFiles$\<close> is \<open>combineLatest\<close> over the state subjects of the batch: it emits the
  list of their values once when a non-empty batch is installed and once after every
  change of a record, and it emits nothing for the empty batch. The three subscriptions
  of the constructor run on each emission:
  \<^item> lines 72-77: \<open>uploading$\<close> receives whether some record is \<open>uploading\<close>;
  \<^item> lines 79-87: \<open>error$\<close> receives the error of the first record whose error is
    truthy (\<open>Boolean(file.error)\<close>, line 82), and nothing when there is no such record
    (\<open>filter(Boolean)\<close>);
  \<^item> lines 89-96: \<open>done$\<close> receives one entry per record when the batch is non-empty and
    every record is \<open>uploaded\<close>.
\<close>

definition carries_error :: "file_state \<Rightarrow> bool" where
  "carries_error f = (case error f of Some v \<Rightarrow> truthy v | None \<Rightarrow> False)"

definition first_error :: "file_state list \<Rightarrow> js_value option" where
  "first_error fs = (case find carries_error fs of Some f \<Rightarrow> error f | None \<Rightarrow> None)"

definition all_uploaded :: "file_state list \<Rightarrow> bool" where
  "all_uploaded fs = (fs \<noteq> [] \<and> list_all (\<lambda>f. status f = Uploaded) fs)"

definition notifications :: "config \<Rightarrow> file_state list \<Rightarrow> done_notification list" where
  "notifications c fs = map (\<lambda>f. \<lparr> dn_id = id_opt f, dn_kind = kind_id (fileKind c) \<rparr>) fs"

definition recompute :: "config \<Rightarrow> upload_state \<Rightarrow> upload_state" where
  "recompute c s =
     (if files s = [] then s
      else s \<lparr> uploading := list_ex (\<lambda>f. status f = Uploading) (files s),
               error_log := (case first_error (files s) of
                               Some e \<Rightarrow> error_log s @ [Some e]
                             | None \<Rightarrow> error_log s),
               done_log := (if all_uploaded (files s)
                            then done_log s @ [Some (notifications c (files s))]
                            else done_log s) \<rparr>)"

text \<open>
  Modelled from the spec: \<open>createStateSubject\<close> and \<open>setState\<close> of \<open>./util\<close>, which is
  not among the sources. A state subject holds one record; \<open>setState\<close> replaces the fields
  it is given, keeps the others, and emits the new record, on which the aggregate state
  is recomputed. The fields to replace are given as an update of the record.
\<close>

definition setState :: "config \<Rightarrow> nat \<Rightarrow> (file_state \<Rightarrow> file_state) \<Rightarrow> upload_state \<Rightarrow> upload_state" where
  "setState c i upd s =
     (if i < length (files s)
      then recompute c (s \<lparr> files := (files s)[i := upd (files s ! i)] \<rparr>)
      else s)"

subsection \<open>The methods that do not upload (lines 99-146)\<close>

definition isUploading :: "upload_state \<Rightarrow> bool" where
  "isUploading s = uploading s"

definition validateFiles :: "config \<Rightarrow> js_file list \<Rightarrow> string option" where
  "validateFiles c fs =
     (case maxSizeBytes (fileKind c) of
        None \<Rightarrow> None
      | Some m \<Rightarrow> if list_ex (\<lambda>f. int (file_size f) > m) fs
                  then Some (fileTooLarge c m) else None)"

text \<open>
  A method returns the error it throws, if any, and the state it leaves. Line 130 tests
  the validation message for truth, so an empty message gives no error.
\<close>

definition setFiles :: "config \<Rightarrow> js_file list \<Rightarrow> upload_state \<Rightarrow> js_value option \<times> upload_state" where
  "setFiles c fs s =
     (if isUploading s then (Some (Error ''Cannot update files while uploading''), s)
      else
        let s1 = (if fs = []
                  then s \<lparr> done_log := done_log s @ [None], error_log := error_log s @ [None] \<rparr>
                  else s);
            validationError = validateFiles c fs;
            err = (case validationError of
                     None \<Rightarrow> None
                   | Some m \<Rightarrow> if m = [] then None else Some (Error m))
        in (None, recompute c
                    (s1 \<lparr> files := map (\<lambda>f. \<lparr> file_obj = f, status = Idle, id_opt = None,
                                               error = err \<rparr>) fs \<rparr>)))"

definition clear :: "config \<Rightarrow> upload_state \<Rightarrow> js_value option \<times> upload_state" where
  "clear c s =
     (case setFiles c [] s of
        (Some e, s') \<Rightarrow> (Some e, s')
      | (None, s') \<Rightarrow> (None, s' \<lparr> clear_log := clear_log s' + 1 \<rparr>))"

subsection \<open>The end of an upload cycle (lines 222-228)\<close>

text \<open>
  The \<open>finalize\<close> of lines 225-228 runs when \<open>forkJoin\<close> has completed or failed. It
  calls \<open>clear\<close> when repeated uploads are allowed; the state is the one \<open>clear\<close>
  leaves. \<open>clear\<close> throws here only if \<open>uploading$\<close> is true, in which case it has
  changed nothing; in the states the class reaches this happens only after an attempt
  has thrown (\<open>attempt_threw\<close> below), never after \<open>forkJoin\<close> has completed (lemma
  \<open>tracked_idle\<close> below).
\<close>

definition upload_finalize :: "config \<Rightarrow> upload_state \<Rightarrow> upload_state" where
  "upload_finalize c s = (if allowRepeatedUploads c then snd (clear c s) else s)"

text \<open>
  \<open>forkJoin\<close> (line 222) emits and completes when the last of its sources has completed.
  The sources of skipped records complete at once; each of the others completes when its
  attempt settles, at which point the attempt is in neither \<open>creating\<close> nor \<open>racing\<close>.
  An attempt emits a value before it completes, so \<open>forkJoin\<close> emits, line 224 maps the
  emission to \<open>undefined\<close>, and the observable completes.
\<close>

definition forkJoin_check :: "config \<Rightarrow> upload_state \<Rightarrow> upload_state" where
  "forkJoin_check c s =
     (if creating s = [] \<and> racing s = []
      then upload_finalize c (s \<lparr> upload_obs := Completed_with_value \<rparr>)
      else s)"

subsection \<open>One attempt (uploadFile, lines 152-211)\<close>

text \<open>
  The synchronous part of \<open>uploadFile\<close> for the record at position \<open>i\<close> (lines 157-177):
  a record that is neither \<open>idle\<close> nor \<open>upload_failed\<close> is skipped; otherwise the record
  becomes \<open>uploading\<close> with its error removed, and \<open>client.create\<close> is called.
\<close>

definition uploadFile :: "config \<Rightarrow> string option \<Rightarrow> nat \<Rightarrow> upload_state \<Rightarrow> upload_state" where
  "uploadFile c meta i s =
     (let f = files s ! i in
      if status f \<noteq> Idle \<and> status f \<noteq> Upload_failed then s
      else
        let s1 = setState c i (\<lambda>r. r \<lparr> status := Uploading, error := None \<rparr>) s;
            (name, mime) = parseFileName c (file_name (file_obj f))
        in s1 \<lparr> calls := calls s1 @ [Create (kind_id (fileKind c)) name mime meta],
                creating := creating s1 @ [i] \<rparr>)"

text \<open>
  The end of an attempt that failed with a value whose \<open>message\<close> can be read (lines
  199-209): \<open>catchError\<close> marks the record \<open>upload_failed\<close> and stores the value as its
  error unless the message is \<open>Abort!\<close>; the \<open>finalize\<close> of the attempt deletes the
  upload target if there is one; then the source of \<open>forkJoin\<close> has completed.
\<close>

definition attempt_failed :: "config \<Rightarrow> nat \<Rightarrow> string option \<Rightarrow> js_value \<Rightarrow> upload_state \<Rightarrow> upload_state" where
  "attempt_failed c i uploadTarget e s =
     (let isAbortError = (message e = Some ''Abort!'');
          s1 = s \<lparr> creating := removeAll i (creating s),
                   racing := filter (\<lambda>p. fst p \<noteq> i) (racing s) \<rparr>;
          s2 = setState c i (\<lambda>r. r \<lparr> status := Upload_failed,
                                      error := (if isAbortError then None else Some e) \<rparr>) s1;
          s3 = (case uploadTarget of
                  None \<Rightarrow> s2
                | Some t \<Rightarrow> s2 \<lparr> calls := calls s2 @ [Delete t (kind_id (fileKind c))] \<rparr>)
      in forkJoin_check c s3)"

text \<open>
  The end of an attempt that failed with \<open>undefined\<close> or \<open>null\<close>: line 200 sets
  \<open>erroredOrAborted\<close>, then line 201 throws a \<open>TypeError\<close> inside \<open>catchError\<close>, so no
  record is written. The \<open>finalize\<close> of the attempt deletes the upload target if there
  is one. The error reaches \<open>forkJoin\<close>, which unsubscribes from every other attempt
  (whose \<open>finalize\<close> deletes nothing, since \<open>erroredOrAborted\<close> is false there) and
  fails; so the observable of the cycle fails, and the \<open>finalize\<close> of line 225 runs.
\<close>

definition attempt_threw :: "config \<Rightarrow> string option \<Rightarrow> upload_state \<Rightarrow> upload_state" where
  "attempt_threw c uploadTarget s =
     (let s1 = s \<lparr> creating := [], racing := [] \<rparr>;
          s2 = (case uploadTarget of
                  None \<Rightarrow> s1
                | Some t \<Rightarrow> s1 \<lparr> calls := calls s1 @ [Delete t (kind_id (fileKind c))] \<rparr>)
      in upload_finalize c (s2 \<lparr> upload_obs := Errored \<rparr>))"

text \<open>The end of an attempt that succeeded (lines 196-198, 205-209).\<close>

definition attempt_succeeded :: "config \<Rightarrow> nat \<Rightarrow> string \<Rightarrow> upload_state \<Rightarrow> upload_state" where
  "attempt_succeeded c i t s =
     (let s1 = s \<lparr> racing := filter (\<lambda>p. fst p \<noteq> i) (racing s) \<rparr>;
          s2 = setState c i (\<lambda>r. r \<lparr> status := Uploaded, id_opt := Some t \<rparr>) s1
      in forkJoin_check c s2)"

text \<open>
  The settlements of the backend promises. A settlement for a record whose attempt does
  not wait for it changes nothing (the promise of an attempt that has lost the race is
  no longer listened to).
  \<^item> \<open>create\<close> resolves with a target (lines 179-195): \<open>client.upload\<close> is called while
    the arguments of \<open>race\<close> are evaluated; then the attempt subscribes to the abort
    signal, which replays an earlier abort at once, and otherwise waits.
  \<^item> \<open>create\<close> rejects with some value: the value reaches \<open>catchError\<close>; there is
    no upload target.
  \<^item> \<open>upload\<close> resolves, or rejects with some value, while the attempt waits in the
    race.
  The \<open>AbortController\<close> of line 157 only tells the backend to stop the transfer; what
  the backend then answers is one of the settlements above.
\<close>

datatype event =
    CreateResolved nat string
  | CreateRejected nat js_value
  | UploadResolved nat
  | UploadRejected nat js_value

fun on_event :: "config \<Rightarrow> event \<Rightarrow> upload_state \<Rightarrow> upload_state" where
  "on_event c (CreateResolved i t) s =
     (if i \<in> set (creating s) then
        let s1 = s \<lparr> creating := removeAll i (creating s),
                     calls := calls s @ [Upload (file_obj (files s ! i)) t (kind_id (fileKind c))] \<rparr>
        in if aborted s1 then attempt_failed c i (Some t) (Error ''Abort!'') s1
           else s1 \<lparr> racing := racing s1 @ [(i, t)] \<rparr>
      else s)"
| "on_event c (CreateRejected i e) s =
     (if i \<in> set (creating s)
      then (if readable e then attempt_failed c i None e s else attempt_threw c None s)
      else s)"
| "on_event c (UploadResolved i) s =
     (case map_of (racing s) i of
        Some t \<Rightarrow> attempt_succeeded c i t s
      | None \<Rightarrow> s)"
| "on_event c (UploadRejected i e) s =
     (case map_of (racing s) i of
        Some t \<Rightarrow> (if readable e then attempt_failed c i (Some t) e s
                   else attempt_threw c (Some t) s)
      | None \<Rightarrow> s)"

subsection \<open>abort and upload (lines 136-141, 213-235)\<close>

text \<open>
  \<open>abort$.next()\<close> reaches the \<open>ReplaySubject\<close> of the running cycle, which keeps the
  value and passes it to the attempts waiting in the race, in the order in which they
  subscribed; each of them throws \<open>Abort!\<close> (lines 182-187). The subscription of
  line 218 lasts from \<open>upload\<close> to the \<open>finalize\<close> of line 227, that is, while the
  observable of the cycle is pending. (Where line 227 is not reached because \<open>clear\<close>
  has thrown, the cycle has failed and no attempt listens to the signal any more.)
\<close>

fun abort_racing :: "config \<Rightarrow> (nat \<times> string) list \<Rightarrow> upload_state \<Rightarrow> upload_state" where
  "abort_racing c [] s = s"
| "abort_racing c ((i, t) # rs) s =
     abort_racing c rs (attempt_failed c i (Some t) (Error ''Abort!'') s)"

definition abort :: "config \<Rightarrow> upload_state \<Rightarrow> js_value option \<times> upload_state" where
  "abort c s =
     (if \<not> isUploading s then (Some (Error ''No upload in progress''), s)
      else (None, if upload_obs s = Pending
                  then abort_racing c (racing s) (s \<lparr> aborted := True \<rparr>)
                  else s))"

text \<open>
  \<open>upload\<close> builds one source per record, in batch order, which runs the synchronous
  part of every attempt (line 222); \<open>forkJoin\<close> of no source completes without a value,
  and \<open>forkJoin\<close> of sources that have all completed emits and completes at once.
\<close>

definition upload :: "config \<Rightarrow> string option \<Rightarrow> upload_state \<Rightarrow> js_value option \<times> upload_state" where
  "upload c meta s =
     (if isUploading s then (Some (Error ''Upload already in progress''), s)
      else
        let s0 = s \<lparr> aborted := False, upload_obs := Pending \<rparr>;
            s1 = fold (uploadFile c meta) [0 ..< length (files s0)] s0
        in (None,
            if files s1 = [] then upload_finalize c (s1 \<lparr> upload_obs := Completed_empty \<rparr>)
            else forkJoin_check c s1))"

subsection \<open>Executions\<close>

datatype action =
    SetFiles "js_file list"
  | StartUpload "string option"
  | Abort
  | Clear
  | Backend event

fun step :: "config \<Rightarrow> action \<Rightarrow> upload_state \<Rightarrow> upload_state" where
  "step c (SetFiles fs) s = snd (setFiles c fs s)"
| "step c (StartUpload meta) s = snd (upload c meta s)"
| "step c Abort s = snd (abort c s)"
| "step c Clear s = snd (clear c s)"
| "step c (Backend ev) s = on_event c ev s"

definition run :: "config \<Rightarrow> action list \<Rightarrow> upload_state \<Rightarrow> upload_state" where
  "run c as s = fold (step c) as s"

subsection \<open>Example inputs\<close>

text \<open>Three files, a file kind with a limit of 10 bytes, without and with repeated
  uploads, and the state in which one upload is in flight.\<close>

definition small_file :: js_file where
  "small_file = \<lparr> file_name = ''a.txt'', file_size = 1 \<rparr>"

definition other_file :: js_file where
  "other_file = \<lparr> file_name = ''b.txt'', file_size = 2 \<rparr>"

definition big_file :: js_file where
  "big_file = \<lparr> file_name = ''c.txt'', file_size = 11 \<rparr>"

definition example_config :: config where
  "example_config = \<lparr> fileKind = \<lparr> kind_id = ''kind'', maxSizeBytes = Some 10 \<rparr>,
     allowRepeatedUploads = False,
     fileTooLarge = (\<lambda>m. ''File is too large''),
     parseFileName = (\<lambda>n. (n, None)) \<rparr>"

definition repeat_config :: config where
  "repeat_config = example_config \<lparr> allowRepeatedUploads := True \<rparr>"

definition uploading_state :: upload_state where
  "uploading_state = run example_config [SetFiles [small_file], StartUpload None] init"

definition failing_state :: upload_state where
  "failing_state = run example_config
     [SetFiles [small_file, other_file], StartUpload None,
      Backend (CreateResolved 0 ''id0''), Backend (CreateResolved 1 ''id1''),
      Backend (UploadRejected 0 (Error ''boom''))] init"

definition failed_state :: upload_state where
  "failed_state = step example_config (Backend (UploadResolved 1)) failing_state"

text \<open>Three files: the first uploaded, then the second rejected, then the third rejected
  with another error.\<close>

definition two_of_three_failed :: upload_state where
  "two_of_three_failed = run example_config
     [SetFiles [small_file, other_file, small_file], StartUpload None,
      Backend (CreateResolved 0 ''id0''), Backend (CreateResolved 1 ''id1''),
      Backend (CreateResolved 2 ''id2''), Backend (UploadResolved 0),
      Backend (UploadRejected 1 (Error ''boom'')),
      Backend (UploadRejected 2 (Error ''late''))] init"

subsection \<open>Relations between a state and a later one\<close>

text \<open>The error channel is not cleared between two states, unless the batch has become
  empty; an empty batch stays empty.\<close>

definition error_kept :: "upload_state \<Rightarrow> upload_state \<Rightarrow> bool" where
  "error_kept s s' \<longleftrightarrow>
     (files s = [] \<longrightarrow> files s' = [])
     \<and> (error_value s' = None \<longrightarrow> error_value s = None \<or> files s' = [])"

subsection \<open>Consistency of the attempts with the records\<close>

text \<open>
  The attempts in flight are the records that are \<open>uploading\<close>, each once;
  \<open>uploading$\<close> tells whether there is one; the observable of the latest \<open>upload\<close>
  is pending exactly while there is one, and has not failed; once the abort signal holds
  a value, no attempt waits in the race. This is \<open>consistent\<close>. It holds until a
  promise rejects with \<open>undefined\<close> or \<open>null\<close>; from then on the state is \<open>stuck\<close>:
  the observable has failed, no attempt is listened to any more, and some record stays
  \<open>uploading\<close>. Lemma \<open>inv_reachable\<close> below shows that every state the class reaches
  from its initial state is of one of the two kinds, and lemma \<open>consistent_reachable\<close>
  that it is consistent as long as no promise has rejected with \<open>undefined\<close> or
  \<open>null\<close>.
\<close>

definition in_flight :: "upload_state \<Rightarrow> nat list" where
  "in_flight s = creating s @ map fst (racing s)"

definition uploading_positions :: "file_state list \<Rightarrow> nat list" where
  "uploading_positions fs = filter (\<lambda>i. status (fs ! i) = Uploading) [0 ..< length fs]"

fun is_errored :: "observable_state \<Rightarrow> bool" where
  "is_errored Errored = True"
| "is_errored _ = False"

definition tracked :: "upload_state \<Rightarrow> bool" where
  "tracked s \<longleftrightarrow>
     distinct (in_flight s)
     \<and> set (in_flight s) = set (uploading_positions (files s))
     \<and> uploading s = list_ex (\<lambda>f. status f = Uploading) (files s)"

definition inv0 :: "upload_state \<Rightarrow> bool" where
  "inv0 s \<longleftrightarrow>
     tracked s \<and> (upload_obs s = Pending \<longleftrightarrow> in_flight s \<noteq> []) \<and> \<not> is_errored (upload_obs s)"

definition consistent :: "upload_state \<Rightarrow> bool" where
  "consistent s \<longleftrightarrow> inv0 s \<and> (aborted s \<longrightarrow> racing s = [])"

definition stuck :: "upload_state \<Rightarrow> bool" where
  "stuck s \<longleftrightarrow>
     upload_obs s = Errored \<and> creating s = [] \<and> racing s = [] \<and> uploading s
     \<and> list_ex (\<lambda>f. status f = Uploading) (files s)"

definition inv :: "upload_state \<Rightarrow> bool" where
  "inv s \<longleftrightarrow> consistent s \<or> stuck s"

text \<open>The settlement is not a rejection with \<open>undefined\<close> or \<open>null\<close>.\<close>

fun readable_event :: "event \<Rightarrow> bool" where
  "readable_event (CreateRejected i e) = readable e"
| "readable_event (UploadRejected i e) = readable e"
| "readable_event _ = True"

subsection \<open>Counting done notifications\<close>

text \<open>The number of notifications (emissions other than \<open>undefined\<close>) on \<open>done$\<close>
  so far.\<close>

definition done_count :: "upload_state \<Rightarrow> nat" where
  "done_count s = length (filter (\<lambda>x. x \<noteq> None) (done_log s))"


text \<open>The step settles, with success, the upload of a record that waits in the race,
  and every record of the batch is \<open>uploaded\<close> after it.\<close>

definition completes_batch :: "action \<Rightarrow> upload_state \<Rightarrow> bool" where
  "completes_batch a s =
     (case a of
        Backend (UploadResolved i) \<Rightarrow>
          (case map_of (racing s) i of
             Some t \<Rightarrow> i < length (files s)
                \<and> all_uploaded ((files s)[i := (files s ! i) \<lparr> status := Uploaded, id_opt := Some t \<rparr>])
           | None \<Rightarrow> False)
      | _ \<Rightarrow> False)"

text \<open>Example states: two uploads waiting in the race, then one and both of them
  resolved.\<close>

definition two_racing :: upload_state where
  "two_racing = run example_config
     [SetFiles [small_file, other_file], StartUpload None,
      Backend (CreateResolved 0 ''id0''), Backend (CreateResolved 1 ''id1'')] init"

definition one_uploaded :: upload_state where
  "one_uploaded = step example_config (Backend (UploadResolved 0)) two_racing"

definition both_uploaded :: upload_state where
  "both_uploaded = step example_config (Backend (UploadResolved 1)) one_uploaded"

subsection \<open>The end of an attempt, before forkJoin looks at it\<close>

text \<open>
  The records that \<open>catchError\<close> (line 202) and the \<open>map\<close> of line 197 write, and
  the state in which an attempt has ended (its record written, its upload target
  deleted if it failed) and \<open>forkJoin\<close> has not yet counted it. Lemmas
  \<open>attempt_failed_eq\<close> and \<open>attempt_succeeded_eq\<close> relate them to \<open>attempt_failed\<close>
  and \<open>attempt_succeeded\<close>.
\<close>

definition failed_record :: "js_value \<Rightarrow> file_state \<Rightarrow> file_state" where
  "failed_record e r =
     r \<lparr> status := Upload_failed, error := (if message e = Some ''Abort!'' then None else Some e) \<rparr>"

definition uploaded_record :: "string \<Rightarrow> file_state \<Rightarrow> file_state" where
  "uploaded_record t r = r \<lparr> status := Uploaded, id_opt := Some t \<rparr>"

definition ended_failed :: "config \<Rightarrow> nat \<Rightarrow> string option \<Rightarrow> js_value \<Rightarrow> upload_state \<Rightarrow> upload_state" where
  "ended_failed c i uploadTarget e s =
     (let s2 = setState c i (failed_record e)
                 (s \<lparr> creating := removeAll i (creating s),
                       racing := filter (\<lambda>p. fst p \<noteq> i) (racing s) \<rparr>)
      in case uploadTarget of
           None \<Rightarrow> s2
         | Some t \<Rightarrow> s2 \<lparr> calls := calls s2 @ [Delete t (kind_id (fileKind c))] \<rparr>)"

definition ended_succeeded :: "config \<Rightarrow> nat \<Rightarrow> string \<Rightarrow> upload_state \<Rightarrow> upload_state" where
  "ended_succeeded c i t s =
     setState c i (uploaded_record t) (s \<lparr> racing := filter (\<lambda>p. fst p \<noteq> i) (racing s) \<rparr>)"


text \<open>Example states: with repeated uploads allowed, one upload resolved and the other
  waiting in the race; without, one attempt waiting in the race and one for
  \<open>create\<close>.\<close>

definition repeat_one_uploaded :: upload_state where
  "repeat_one_uploaded = run repeat_config
     [SetFiles [small_file, other_file], StartUpload None,
      Backend (CreateResolved 0 ''id0''), Backend (CreateResolved 1 ''id1''),
      Backend (UploadResolved 0)] init"


section \<open>Properties\<close>

subsection \<open>Basic facts\<close>

lemma recompute_files [simp]: "files (recompute c s) = files s"
  by (simp add: recompute_def)

lemma recompute_calls [simp]: "calls (recompute c s) = calls s"
  by (simp add: recompute_def)

subsection \<open>Set files\<close>

text \<open>
  C1, as the code has it. When some file of the batch is larger than the configured
  maximum (and the size-limit text is not empty) and no upload is in progress, Set files
  returns normally, every record of the new batch carries the size-limit error, and no
  call on the backend client has been made. The status of every record is \<open>idle\<close>
  (line 129), not \<open>upload_failed\<close>.
\<close>

theorem setFiles_oversized:
  assumes "maxSizeBytes (fileKind c) = Some m"
    and "\<exists>f \<in> set fs. int (file_size f) > m"
    and "fileTooLarge c m \<noteq> []"
    and "\<not> isUploading s"
  shows "fst (setFiles c fs s) = None
    \<and> files (snd (setFiles c fs s))
        = map (\<lambda>f. \<lparr> file_obj = f, status = Idle, id_opt = None,
                       error = Some (Error (fileTooLarge c m)) \<rparr>) fs
    \<and> (\<forall>r \<in> set (files (snd (setFiles c fs s))).
          status r = Idle \<and> error r = Some (Error (fileTooLarge c m)))
    \<and> calls (snd (setFiles c fs s)) = calls s"
proof -
  from assms(2) have ex: "list_ex (\<lambda>f. int (file_size f) > m) fs"
    by (simp add: list_ex_iff)
  from assms(2) have ne: "fs \<noteq> []" by auto
  have v: "validateFiles c fs = Some (fileTooLarge c m)"
    using assms(1) ex by (simp add: validateFiles_def)
  show ?thesis
    using assms(3,4) v ne by (auto simp: setFiles_def Let_def)
qed

theorem setFiles_oversized_witness:
  "maxSizeBytes (fileKind example_config) = Some 10
   \<and> (\<exists>f \<in> set [small_file, big_file]. int (file_size f) > 10)
   \<and> fileTooLarge example_config 10 \<noteq> []
   \<and> \<not> isUploading init
   \<and> fst (setFiles example_config [small_file, big_file] init) = None
   \<and> files (snd (setFiles example_config [small_file, big_file] init))
        = map (\<lambda>f. \<lparr> file_obj = f, status = Idle, id_opt = None,
                       error = Some (Error (fileTooLarge example_config 10)) \<rparr>)
            [small_file, big_file]
   \<and> calls (snd (setFiles example_config [small_file, big_file] init)) = calls init"
proof -
  have h1: "maxSizeBytes (fileKind example_config) = Some 10" by code_simp
  have h2: "\<exists>f \<in> set [small_file, big_file]. int (file_size f) > 10" by code_simp
  have h3: "fileTooLarge example_config 10 \<noteq> []" by code_simp
  have h4: "\<not> isUploading init" by code_simp
  show ?thesis using h1 h2 h3 h4 setFiles_oversized [OF h1 h2 h3 h4] by blast
qed

text \<open>The claim C1 as stated fails: after Set files on a batch with an oversized file
  the records are \<open>idle\<close>.\<close>

theorem setFiles_oversized_counterexample:
  "files (snd (setFiles example_config [small_file, big_file] init))
     = [\<lparr> file_obj = small_file, status = Idle, id_opt = None,
          error = Some (Error ''File is too large'') \<rparr>,
        \<lparr> file_obj = big_file, status = Idle, id_opt = None,
          error = Some (Error ''File is too large'') \<rparr>]
   \<and> status (files (snd (setFiles example_config [small_file, big_file] init)) ! 0)
       \<noteq> Upload_failed"
  by code_simp

text \<open>
  C5. Whenever Is uploading() is true, Set files throws the error
  \<open>Cannot update files while uploading\<close> and the state (records, error channel, done
  channel and everything else) is the one before the call.
\<close>

theorem setFiles_while_uploading:
  "isUploading s \<Longrightarrow> setFiles c fs s = (Some (Error ''Cannot update files while uploading''), s)"
  by (simp add: setFiles_def)

theorem setFiles_while_uploading_witness:
  "isUploading uploading_state \<and>
   setFiles example_config [other_file] uploading_state
     = (Some (Error ''Cannot update files while uploading''), uploading_state)"
proof -
  have h: "isUploading uploading_state" by code_simp
  show ?thesis using h setFiles_while_uploading [OF h] by simp
qed

subsection \<open>Clear\<close>

text \<open>
  C6, as the code has it. When no upload is in progress, Clear() is Set files of the empty
  list followed by one clear notification: the batch is empty afterwards, \<open>undefined\<close>
  has been emitted on the done channel and on the error channel, whatever the records
  were. While an upload is in progress Clear() throws the error of Set files and changes
  nothing.
\<close>

theorem clear_spec:
  "(\<not> isUploading s \<longrightarrow>
      fst (setFiles c [] s) = None
      \<and> clear c s = (None, (snd (setFiles c [] s)) \<lparr> clear_log := clear_log s + 1 \<rparr>)
      \<and> clear_log (snd (clear c s)) = clear_log s + 1
      \<and> files (snd (clear c s)) = []
      \<and> error_value (snd (clear c s)) = None
      \<and> done_log (snd (clear c s)) = done_log s @ [None]
      \<and> error_log (snd (clear c s)) = error_log s @ [None])
   \<and> (isUploading s \<longrightarrow>
      clear c s = (Some (Error ''Cannot update files while uploading''), s))"
  by (simp add: clear_def setFiles_def validateFiles_def recompute_def error_value_def Let_def
           split: option.splits)

theorem clear_spec_witness:
  "\<not> isUploading init \<and> isUploading uploading_state
   \<and> files (snd (clear example_config init)) = []
   \<and> clear_log (snd (clear example_config init)) = 1
   \<and> clear example_config uploading_state
       = (Some (Error ''Cannot update files while uploading''), uploading_state)"
proof -
  have h1: "\<not> isUploading init" by code_simp
  have h2: "isUploading uploading_state" by code_simp
  have h3: "clear_log init = 0" by code_simp
  have a: "files (snd (clear example_config init)) = []"
    and b: "clear_log (snd (clear example_config init)) = clear_log init + 1"
    using h1 clear_spec [of init example_config] by blast+
  have d: "clear example_config uploading_state
       = (Some (Error ''Cannot update files while uploading''), uploading_state)"
    using h2 clear_spec [of uploading_state example_config] by blast
  show ?thesis using h1 h2 h3 a b d by simp
qed

text \<open>The claim C6 as stated fails: while an upload is in progress Clear() throws, the
  batch is kept and no clear notification is emitted.\<close>

theorem clear_while_uploading_counterexample:
  "isUploading uploading_state
   \<and> fst (clear example_config uploading_state) = Some (Error ''Cannot update files while uploading'')
   \<and> files (snd (clear example_config uploading_state))
       = [\<lparr> file_obj = small_file, status = Uploading, id_opt = None, error = None \<rparr>]
   \<and> clear_log (snd (clear example_config uploading_state)) = 0"
  by code_simp

subsection \<open>Usage errors of Abort and Start upload\<close>

text \<open>
  C7. Whenever Is uploading() is false, Abort() throws \<open>No upload in progress\<close>;
  whenever Is uploading() is true, Start upload throws \<open>Upload already in progress\<close>.
  Both leave the state as it was.
\<close>

theorem usage_errors:
  "(\<not> isUploading s \<longrightarrow> abort c s = (Some (Error ''No upload in progress''), s))
   \<and> (isUploading s \<longrightarrow> upload c meta s = (Some (Error ''Upload already in progress''), s))"
  by (simp add: abort_def upload_def)

theorem usage_errors_witness:
  "\<not> isUploading init \<and> isUploading uploading_state
   \<and> abort example_config init = (Some (Error ''No upload in progress''), init)
   \<and> upload example_config None uploading_state
       = (Some (Error ''Upload already in progress''), uploading_state)"
proof -
  have h1: "\<not> isUploading init" by code_simp
  have h2: "isUploading uploading_state" by code_simp
  show ?thesis
    using h1 h2 usage_errors [of init example_config] usage_errors [of uploading_state example_config None]
    by simp
qed

subsection \<open>Start upload on an empty batch\<close>

text \<open>
  C9. Start upload on an empty batch (with no upload in progress, which lemma
  \<open>inv_empty_idle\<close> shows for every empty batch the class reaches) makes no call on the
  backend client, emits no notification on the done channel (only the \<open>undefined\<close> of
  the automatic clear, when repeated uploads are allowed), and the observable it returns
  has completed without a value.
\<close>

theorem upload_empty_batch:
  assumes "files s = []" and "\<not> isUploading s"
  shows "fst (upload c meta s) = None
    \<and> calls (snd (upload c meta s)) = calls s
    \<and> upload_obs (snd (upload c meta s)) = Completed_empty
    \<and> done_log (snd (upload c meta s))
        = (if allowRepeatedUploads c then done_log s @ [None] else done_log s)
    \<and> filter (\<lambda>x. x \<noteq> None) (done_log (snd (upload c meta s)))
        = filter (\<lambda>x. x \<noteq> None) (done_log s)"
  using assms
  by (simp add: upload_def upload_finalize_def clear_def setFiles_def validateFiles_def
        recompute_def isUploading_def Let_def split: option.splits)

theorem upload_empty_batch_witness:
  "files init = [] \<and> \<not> isUploading init
   \<and> fst (upload repeat_config None init) = None
   \<and> calls (snd (upload repeat_config None init)) = []
   \<and> upload_obs (snd (upload repeat_config None init)) = Completed_empty
   \<and> done_log (snd (upload repeat_config None init)) = [None]"
proof -
  have h1: "files init = []" by code_simp
  have h2: "\<not> isUploading init" by code_simp
  have h3: "calls init = []" "done_log init = []" "allowRepeatedUploads repeat_config"
    by code_simp+
  show ?thesis using h1 h2 h3 upload_empty_batch [OF h1 h2, of repeat_config None] by simp
qed

subsection \<open>The error channel\<close>

lemma error_value_recompute:
  "error_value (recompute c s)
     = (case first_error (files s) of Some e \<Rightarrow> Some e | None \<Rightarrow> error_value s)"
  by (simp add: recompute_def error_value_def first_error_def split: option.splits)

lemma error_kept_refl: "error_kept s s"
  by (simp add: error_kept_def)

lemma error_kept_trans: "error_kept s s' \<Longrightarrow> error_kept s' s'' \<Longrightarrow> error_kept s s''"
  by (auto simp: error_kept_def)

lemma error_kept_same:
  "files s' = files s \<Longrightarrow> error_log s' = error_log s \<Longrightarrow> error_kept s s'"
  by (simp add: error_kept_def error_value_def)

lemma error_kept_recompute: "error_kept s (recompute c s)"
  by (auto simp: error_kept_def error_value_recompute split: option.splits)

lemma error_kept_setState: "error_kept s (setState c i upd s)"
proof (cases "i < length (files s)")
  case True
  let ?s1 = "s \<lparr> files := (files s)[i := upd (files s ! i)] \<rparr>"
  have "error_kept s ?s1"
    using True by (auto simp: error_kept_def error_value_def)
  moreover have "error_kept ?s1 (recompute c ?s1)" by (rule error_kept_recompute)
  ultimately show ?thesis using True by (auto simp: setState_def intro: error_kept_trans)
next
  case False
  then show ?thesis by (simp add: setState_def error_kept_refl)
qed

lemma error_kept_clear: "error_kept s (snd (clear c s))"
  by (auto simp: error_kept_def clear_def setFiles_def Let_def validateFiles_def recompute_def
           split: option.splits)

lemma error_kept_upload_finalize: "error_kept s (upload_finalize c s)"
  by (simp add: upload_finalize_def error_kept_clear error_kept_refl)

lemma error_kept_forkJoin_check: "error_kept s (forkJoin_check c s)"
proof (cases "creating s = [] \<and> racing s = []")
  case True
  have "error_kept s (s \<lparr> upload_obs := Completed_with_value \<rparr>)"
    by (rule error_kept_same) simp_all
  then show ?thesis
    using True error_kept_upload_finalize error_kept_trans
    by (fastforce simp: forkJoin_check_def)
next
  case False
  then show ?thesis by (auto simp: forkJoin_check_def error_kept_refl)
qed

lemma error_kept_attempt_failed: "error_kept s (attempt_failed c i tgt e s)"
proof -
  let ?s1 = "s \<lparr> creating := removeAll i (creating s),
                 racing := filter (\<lambda>p. fst p \<noteq> i) (racing s) \<rparr>"
  let ?s2 = "setState c i (\<lambda>r. r \<lparr> status := Upload_failed,
                error := (if message e = Some ''Abort!'' then None else Some e) \<rparr>) ?s1"
  let ?s3 = "case tgt of None \<Rightarrow> ?s2
             | Some t \<Rightarrow> ?s2 \<lparr> calls := calls ?s2 @ [Delete t (kind_id (fileKind c))] \<rparr>"
  have a: "error_kept s ?s1" by (rule error_kept_same) simp_all
  have b: "error_kept ?s1 ?s2" by (rule error_kept_setState)
  have c: "error_kept ?s2 ?s3" by (cases tgt) (simp_all add: error_kept_refl error_kept_same)
  have d: "error_kept ?s3 (forkJoin_check c ?s3)" by (rule error_kept_forkJoin_check)
  show ?thesis
    unfolding attempt_failed_def Let_def
    by (rule error_kept_trans [OF a], rule error_kept_trans [OF b], rule error_kept_trans [OF c d])
qed

lemma error_kept_attempt_succeeded: "error_kept s (attempt_succeeded c i t s)"
proof -
  let ?s1 = "s \<lparr> racing := filter (\<lambda>p. fst p \<noteq> i) (racing s) \<rparr>"
  let ?s2 = "setState c i (\<lambda>r. r \<lparr> status := Uploaded, id_opt := Some t \<rparr>) ?s1"
  have a: "error_kept s ?s1" by (rule error_kept_same) simp_all
  have b: "error_kept ?s1 ?s2" by (rule error_kept_setState)
  have d: "error_kept ?s2 (forkJoin_check c ?s2)" by (rule error_kept_forkJoin_check)
  show ?thesis
    unfolding attempt_succeeded_def Let_def
    by (rule error_kept_trans [OF a], rule error_kept_trans [OF b d])
qed

lemma error_kept_attempt_threw: "error_kept s (attempt_threw c tgt s)"
proof -
  let ?s2 = "case tgt of
               None \<Rightarrow> s \<lparr> creating := [], racing := [] \<rparr>
             | Some t \<Rightarrow> s \<lparr> creating := [], racing := [] \<rparr>
                 \<lparr> calls := calls (s \<lparr> creating := [], racing := [] \<rparr>)
                            @ [Delete t (kind_id (fileKind c))] \<rparr>"
  have a: "error_kept s (?s2 \<lparr> upload_obs := Errored \<rparr>)"
    by (rule error_kept_same) (simp_all split: option.splits)
  show ?thesis
    unfolding attempt_threw_def Let_def
    by (rule error_kept_trans [OF a error_kept_upload_finalize])
qed

lemma error_kept_on_event: "error_kept s (on_event c ev s)"
proof (cases ev)
  case (CreateResolved i t)
  let ?s1 = "s \<lparr> creating := removeAll i (creating s),
                 calls := calls s @ [Upload (file_obj (files s ! i)) t (kind_id (fileKind c))] \<rparr>"
  have a: "error_kept s ?s1" by (rule error_kept_same) simp_all
  have b: "error_kept ?s1 (attempt_failed c i (Some t) (Error ''Abort!'') ?s1)"
    by (rule error_kept_attempt_failed)
  have c: "error_kept ?s1 (?s1 \<lparr> racing := racing ?s1 @ [(i, t)] \<rparr>)"
    by (rule error_kept_same) simp_all
  show ?thesis
    using CreateResolved error_kept_trans [OF a b] error_kept_trans [OF a c]
    by (simp add: Let_def error_kept_refl)
next
  case (CreateRejected i e)
  then show ?thesis
    by (simp add: error_kept_attempt_failed error_kept_attempt_threw error_kept_refl)
next
  case (UploadResolved i)
  then show ?thesis
    by (simp add: error_kept_attempt_succeeded error_kept_refl split: option.splits)
next
  case (UploadRejected i e)
  then show ?thesis
    by (simp add: error_kept_attempt_failed error_kept_attempt_threw error_kept_refl
          split: option.splits)
qed

lemma error_kept_abort_racing: "error_kept s (abort_racing c rs s)"
proof (induction rs arbitrary: s)
  case Nil
  then show ?case by (simp add: error_kept_refl)
next
  case (Cons p rs)
  obtain i t where p: "p = (i, t)" by (cases p)
  show ?case
    using error_kept_trans [OF error_kept_attempt_failed Cons.IH] p by simp
qed

lemma error_kept_abort: "error_kept s (snd (abort c s))"
proof -
  have "error_kept s (s \<lparr> aborted := True \<rparr>)" by (rule error_kept_same) simp_all
  then have "error_kept s (abort_racing c (racing s) (s \<lparr> aborted := True \<rparr>))"
    using error_kept_abort_racing error_kept_trans by blast
  then show ?thesis by (simp add: abort_def error_kept_refl)
qed

lemma error_kept_uploadFile: "error_kept s (uploadFile c meta i s)"
proof -
  let ?s1 = "setState c i (\<lambda>r. r \<lparr> status := Uploading, error := None \<rparr>) s"
  have a: "error_kept s ?s1" by (rule error_kept_setState)
  have b: "error_kept ?s1 (?s1 \<lparr> calls := cs, creating := cr \<rparr>)" for cs cr
    by (rule error_kept_same) simp_all
  show ?thesis
    using error_kept_trans [OF a b]
    by (simp add: uploadFile_def Let_def error_kept_refl split: prod.splits)
qed

lemma error_kept_fold_uploadFile: "error_kept s (fold (uploadFile c meta) is s)"
proof (induction "is" arbitrary: s)
  case Nil
  then show ?case by (simp add: error_kept_refl)
next
  case (Cons i "is")
  show ?case using error_kept_trans [OF error_kept_uploadFile Cons.IH] by simp
qed

lemma error_kept_upload: "error_kept s (snd (upload c meta s))"
proof (cases "isUploading s")
  case True
  then show ?thesis by (simp add: upload_def error_kept_refl)
next
  case False
  let ?s0 = "s \<lparr> aborted := False, upload_obs := Pending \<rparr>"
  let ?s1 = "fold (uploadFile c meta) [0 ..< length (files ?s0)] ?s0"
  have a: "error_kept s ?s0" by (rule error_kept_same) simp_all
  have b: "error_kept ?s0 ?s1" by (rule error_kept_fold_uploadFile)
  have ab: "error_kept s ?s1" by (rule error_kept_trans [OF a b])
  have c: "error_kept ?s1 (?s1 \<lparr> upload_obs := Completed_empty \<rparr>)"
    by (rule error_kept_same) simp_all
  have d: "error_kept ?s1 (upload_finalize c (?s1 \<lparr> upload_obs := Completed_empty \<rparr>))"
    by (rule error_kept_trans [OF c error_kept_upload_finalize])
  have e: "error_kept ?s1 (forkJoin_check c ?s1)" by (rule error_kept_forkJoin_check)
  show ?thesis
    using False error_kept_trans [OF ab d] error_kept_trans [OF ab e]
    by (simp add: upload_def Let_def)
qed

lemma error_value_setFiles:
  assumes "\<not> isUploading s" and "fs \<noteq> []"
    and "error_value (snd (setFiles c fs s)) = None"
  shows "error_value s = None"
proof -
  obtain F where F: "snd (setFiles c fs s) = recompute c (s \<lparr> files := F \<rparr>)"
    using assms(1,2) by (simp add: setFiles_def Let_def)
  have "error_value (s \<lparr> files := F \<rparr>) = error_value s"
    by (simp add: error_value_def)
  then show ?thesis
    using assms(3) unfolding F error_value_recompute by (simp split: option.splits)
qed

lemma find_first:
  "k < length fs \<Longrightarrow> P (fs ! k) \<Longrightarrow> \<forall>j<k. \<not> P (fs ! j) \<Longrightarrow> find P fs = Some (fs ! k)"
proof (induction fs arbitrary: k)
  case Nil
  then show ?case by simp
next
  case (Cons f fs)
  show ?case
  proof (cases k)
    case 0
    then show ?thesis using Cons.prems by simp
  next
    case (Suc n)
    have "\<not> P f" using Cons.prems(3) Suc by auto
    moreover have "find P fs = Some (fs ! n)"
      using Cons.prems Suc by (intro Cons.IH) auto
    ultimately show ?thesis using Suc by simp
  qed
qed

lemma first_error_first:
  assumes "k < length fs" and "error (fs ! k) = Some v" and "truthy v"
    and "\<forall>j<k. \<forall>w. error (fs ! j) = Some w \<longrightarrow> \<not> truthy w"
  shows "first_error fs = Some v"
proof -
  have "carries_error (fs ! k)" using assms(2,3) by (simp add: carries_error_def)
  moreover have "\<forall>j<k. \<not> carries_error (fs ! j)"
    using assms(4) by (auto simp: carries_error_def split: option.splits)
  ultimately have "find carries_error fs = Some (fs ! k)"
    using assms(1) by (intro find_first) auto
  then show ?thesis using assms(2) by (simp add: first_error_def)
qed

lemma first_error_none:
  assumes "\<forall>j<length fs. \<forall>w. error (fs ! j) = Some w \<longrightarrow> \<not> truthy w"
  shows "first_error fs = None"
proof -
  have "\<not> carries_error f" if h: "f \<in> set fs" for f
  proof -
    obtain j where "j < length fs" "fs ! j = f" using h by (auto simp: in_set_conv_nth)
    then show ?thesis using assms by (auto simp: carries_error_def split: option.splits)
  qed
  then have "find carries_error fs = None" by (auto simp: find_None_iff)
  then show ?thesis by (simp add: first_error_def)
qed

text \<open>
  C8. Each recomputation of the aggregate state leaves on the error channel the error of
  the first record, in batch order, that carries one (the record at position \<open>k\<close>
  carries a truthy error and no record before it does), and leaves the channel as it
  was when no record carries one. No method and no settlement of a backend promise takes
  the channel from an error to \<open>undefined\<close>, except by replacing the batch by the empty
  list.
\<close>

theorem error_channel:
  "(k < length (files s) \<and> error (files s ! k) = Some v \<and> truthy v
      \<and> (\<forall>j<k. \<forall>w. error (files s ! j) = Some w \<longrightarrow> \<not> truthy w)
     \<longrightarrow> error_value (recompute c s) = Some v)
   \<and> ((\<forall>j<length (files s). \<forall>w. error (files s ! j) = Some w \<longrightarrow> \<not> truthy w)
     \<longrightarrow> error_value (recompute c s) = error_value s)
   \<and> (error_value (step c a s) = None \<longrightarrow> error_value s = None \<or> files (step c a s) = [])"
proof -
  have st: "error_value (step c a s) = None \<longrightarrow> error_value s = None \<or> files (step c a s) = []"
  proof (cases a)
    case (SetFiles fs)
    show ?thesis
    proof (cases "isUploading s \<or> fs = []")
      case True
      then show ?thesis using SetFiles by (auto simp: setFiles_def Let_def)
    next
      case False
      then show ?thesis
        using SetFiles error_value_setFiles [of s fs c] by auto
    qed
  next
    case (StartUpload meta)
    then show ?thesis using error_kept_upload [of s c meta] by (simp add: error_kept_def)
  next
    case Abort
    then show ?thesis using error_kept_abort [of s c] by (simp add: error_kept_def)
  next
    case Clear
    then show ?thesis using error_kept_clear [of s c] by (simp add: error_kept_def)
  next
    case (Backend ev)
    then show ?thesis using error_kept_on_event [of s c ev] by (simp add: error_kept_def)
  qed
  have fi: "error_value (recompute c s) = Some v"
    if "k < length (files s)" "error (files s ! k) = Some v" "truthy v"
      "\<forall>j<k. \<forall>w. error (files s ! j) = Some w \<longrightarrow> \<not> truthy w"
    using first_error_first [OF that] by (simp add: error_value_recompute)
  have no: "error_value (recompute c s) = error_value s"
    if "\<forall>j<length (files s). \<forall>w. error (files s ! j) = Some w \<longrightarrow> \<not> truthy w"
    using first_error_none [OF that] by (simp add: error_value_recompute)
  show ?thesis using st fi no by blast
qed

theorem error_channel_witness:
  "map error (files two_of_three_failed)
     = [None, Some (Error ''boom''), Some (Error ''late'')]
   \<and> error_log two_of_three_failed = [Some (Error ''boom''), Some (Error ''boom'')]
   \<and> error_value (recompute example_config two_of_three_failed) = Some (Error ''boom'')
   \<and> map error (files both_uploaded) = [None, None]
   \<and> error_value (recompute example_config both_uploaded) = error_value both_uploaded
   \<and> error_value failing_state = Some (Error ''boom'')
   \<and> error_value failed_state = Some (Error ''boom'')
   \<and> error_value (step example_config Clear failed_state) = None
   \<and> files (step example_config Clear failed_state) = []"
proof -
  have g0: "map error (files two_of_three_failed)
     = [None, Some (Error ''boom''), Some (Error ''late'')]" by code_simp
  have g1: "error_log two_of_three_failed = [Some (Error ''boom''), Some (Error ''boom'')]"
    by code_simp
  have g2: "length (files two_of_three_failed) = 3" by code_simp
  have g3: "error (files two_of_three_failed ! 0) = None" by code_simp
  have g4: "error (files two_of_three_failed ! 1) = Some (Error ''boom'')" by code_simp
  have g5: "\<forall>j<1. \<forall>w. error (files two_of_three_failed ! j) = Some w \<longrightarrow> \<not> truthy w"
    using g3 by simp
  have g6: "map error (files both_uploaded) = [None, None]" by code_simp
  have g7: "length (files both_uploaded) = 2" by code_simp
  have g8: "\<forall>j<length (files both_uploaded).
              \<forall>w. error (files both_uploaded ! j) = Some w \<longrightarrow> \<not> truthy w"
  proof (intro allI impI)
    fix j w assume "j < length (files both_uploaded)"
      and w: "error (files both_uploaded ! j) = Some w"
    then have "j < length (map error (files both_uploaded))" by simp
    then have "map error (files both_uploaded) ! j = error (files both_uploaded ! j)"
      by (simp only: length_map nth_map)
    then have "[None, None] ! j = Some w" using g6 w by simp
    moreover have "j < 2" using \<open>j < length (files both_uploaded)\<close> g7 by simp
    ultimately show "\<not> truthy w" by (cases j) (auto simp: less_Suc_eq)
  qed
  have h0: "error_value failing_state = Some (Error ''boom'')" by code_simp
  have h1: "error_value failed_state = Some (Error ''boom'')" by code_simp
  have h4: "error_value (step example_config Clear failed_state) = None" by code_simp
  have a: "error_value (recompute example_config two_of_three_failed) = Some (Error ''boom'')"
    using g2 g4 g5
      error_channel [where c = example_config and s = two_of_three_failed and k = 1
        and v = "Error ''boom''"]
    by simp
  have a': "error_value (recompute example_config both_uploaded) = error_value both_uploaded"
    using g8 error_channel [where c = example_config and s = both_uploaded] by blast
  have b: "files (step example_config Clear failed_state) = []"
    using h1 h4 error_channel [where c = example_config and s = failed_state and a = Clear]
    by auto
  show ?thesis using g0 g1 g6 h0 h1 h4 a a' b by blast
qed

subsection \<open>The fields each function leaves alone\<close>

lemma recompute_fields [simp]:
  "creating (recompute c s) = creating s"
  "racing (recompute c s) = racing s"
  "aborted (recompute c s) = aborted s"
  "upload_obs (recompute c s) = upload_obs s"
  "clear_log (recompute c s) = clear_log s"
  by (simp_all add: recompute_def)

lemma recompute_uploading:
  "files s \<noteq> [] \<Longrightarrow> uploading (recompute c s) = list_ex (\<lambda>f. status f = Uploading) (files s)"
  by (simp add: recompute_def)

lemma setState_fields [simp]:
  "creating (setState c i upd s) = creating s"
  "racing (setState c i upd s) = racing s"
  "aborted (setState c i upd s) = aborted s"
  "upload_obs (setState c i upd s) = upload_obs s"
  "clear_log (setState c i upd s) = clear_log s"
  "calls (setState c i upd s) = calls s"
  by (simp_all add: setState_def)

lemma setState_files:
  "files (setState c i upd s) = (files s)[i := upd (files s ! i)]"
  by (simp add: setState_def list_update_beyond)

lemma setState_uploading:
  "i < length (files s) \<Longrightarrow>
   uploading (setState c i upd s)
     = list_ex (\<lambda>f. status f = Uploading) ((files s)[i := upd (files s ! i)])"
  by (cases "files s = []") (simp_all add: setState_def recompute_uploading)

lemma set_uploading_positions:
  "set (uploading_positions fs) = {i. i < length fs \<and> status (fs ! i) = Uploading}"
  by (auto simp: uploading_positions_def)

lemma list_ex_uploading:
  "list_ex (\<lambda>f. status f = Uploading) fs \<longleftrightarrow> set (uploading_positions fs) \<noteq> {}"
proof
  assume "list_ex (\<lambda>f. status f = Uploading) fs"
  then obtain i where "i < length fs" "status (fs ! i) = Uploading"
    by (auto simp: list_ex_iff in_set_conv_nth)
  then show "set (uploading_positions fs) \<noteq> {}"
    by (auto simp: set_uploading_positions)
next
  assume "set (uploading_positions fs) \<noteq> {}"
  then obtain i where "i < length fs" "status (fs ! i) = Uploading"
    by (auto simp: set_uploading_positions)
  then show "list_ex (\<lambda>f. status f = Uploading) fs"
    unfolding list_ex_iff using nth_mem by blast
qed

lemma uploading_positions_update:
  "i < length fs \<Longrightarrow>
   set (uploading_positions (fs[i := r]))
     = (if status r = Uploading then insert i (set (uploading_positions fs))
        else set (uploading_positions fs) - {i})"
  by (auto simp: set_uploading_positions nth_list_update)

lemma in_flight_bound: "tracked s \<Longrightarrow> i \<in> set (in_flight s) \<Longrightarrow> i < length (files s)"
  by (simp add: tracked_def set_uploading_positions)

lemma tracked_not_uploading: "tracked s \<Longrightarrow> \<not> uploading s \<Longrightarrow> in_flight s = []"
  unfolding tracked_def list_ex_uploading by (metis set_empty)

lemma tracked_idle: "tracked s \<Longrightarrow> in_flight s = [] \<Longrightarrow> \<not> uploading s"
  unfolding tracked_def list_ex_uploading by (metis set_empty)

lemma tracked_cong:
  "files s' = files s \<Longrightarrow> creating s' = creating s \<Longrightarrow> racing s' = racing s \<Longrightarrow>
   uploading s' = uploading s \<Longrightarrow> tracked s' = tracked s"
  by (simp add: tracked_def in_flight_def)

subsection \<open>The consistency is kept by every step\<close>

lemma tracked_settle:
  assumes t: "tracked s" and i: "i \<in> set (in_flight s)" and u: "\<And>r. status (upd r) \<noteq> Uploading"
  shows "tracked (setState c i upd (s \<lparr> creating := removeAll i (creating s),
                                         racing := filter (\<lambda>p. fst p \<noteq> i) (racing s) \<rparr>))"
    (is "tracked ?s2")
proof -
  have len: "i < length (files s)" using t i by (rule in_flight_bound)
  have fl: "in_flight ?s2 = removeAll i (in_flight s)"
    by (simp add: in_flight_def filter_map comp_def removeAll_filter_not_eq) (metis)
  have d: "distinct (in_flight ?s2)" using t by (simp add: fl tracked_def distinct_removeAll)
  have f: "files ?s2 = (files s)[i := upd (files s ! i)]" by (simp add: setState_files)
  have "set (in_flight ?s2) = set (in_flight s) - {i}" by (simp add: fl)
  also have "\<dots> = set (uploading_positions (files ?s2))"
    using t len u by (simp add: f uploading_positions_update tracked_def)
  finally have e: "set (in_flight ?s2) = set (uploading_positions (files ?s2))" .
  have "uploading ?s2 = list_ex (\<lambda>f. status f = Uploading) (files ?s2)"
    using len by (simp add: f setState_uploading)
  then show ?thesis using d e by (simp add: tracked_def)
qed


lemma setFiles_fields [simp]:
  "creating (snd (setFiles c fs s)) = creating s"
  "racing (snd (setFiles c fs s)) = racing s"
  "aborted (snd (setFiles c fs s)) = aborted s"
  "upload_obs (snd (setFiles c fs s)) = upload_obs s"
  "calls (snd (setFiles c fs s)) = calls s"
  "clear_log (snd (setFiles c fs s)) = clear_log s"
  by (simp_all add: setFiles_def Let_def)

lemma setFiles_status:
  "\<not> isUploading s \<Longrightarrow> r \<in> set (files (snd (setFiles c fs s))) \<Longrightarrow> status r = Idle"
  by (auto simp: setFiles_def Let_def)

lemma setFiles_length:
  "\<not> isUploading s \<Longrightarrow> length (files (snd (setFiles c fs s))) = length fs"
  by (simp add: setFiles_def Let_def)

lemma setFiles_uploading:
  "\<not> isUploading s \<Longrightarrow> \<not> uploading (snd (setFiles c fs s))"
  by (auto simp: setFiles_def Let_def recompute_def isUploading_def list_ex_iff)

lemma tracked_setFiles:
  assumes "tracked s"
  shows "tracked (snd (setFiles c fs s))"
proof (cases "isUploading s")
  case True
  then show ?thesis using assms by (simp add: setFiles_def)
next
  case False
  let ?s' = "snd (setFiles c fs s)"
  have nf: "in_flight s = []"
    using assms False by (simp add: tracked_not_uploading isUploading_def)
  have a: "in_flight ?s' = []" using nf by (simp add: in_flight_def)
  have b: "uploading_positions (files ?s') = []"
    using setFiles_status [OF False, of _ c fs]
    by (auto simp: uploading_positions_def filter_empty_conv)
  have c: "\<not> list_ex (\<lambda>f. status f = Uploading) (files ?s')"
    using setFiles_status [OF False, of _ c fs] by (auto simp: list_ex_iff)
  show ?thesis
    using a b c setFiles_uploading [OF False, of c fs] by (simp add: tracked_def)
qed

lemma inv0_setFiles: "inv0 s \<Longrightarrow> inv0 (snd (setFiles c fs s))"
  using tracked_setFiles [of s c fs] by (simp add: inv0_def in_flight_def)

lemma clear_fields [simp]:
  "creating (snd (clear c s)) = creating s"
  "racing (snd (clear c s)) = racing s"
  "aborted (snd (clear c s)) = aborted s"
  "upload_obs (snd (clear c s)) = upload_obs s"
  "calls (snd (clear c s)) = calls s"
  by (simp_all add: clear_def split: prod.splits option.splits)
    (metis setFiles_fields snd_conv)+

lemma clear_files_uploading:
  "files (snd (clear c s)) = files (snd (setFiles c [] s))"
  "uploading (snd (clear c s)) = uploading (snd (setFiles c [] s))"
  by (simp_all add: clear_def split: prod.splits option.splits)

lemma inv0_clear: "inv0 s \<Longrightarrow> inv0 (snd (clear c s))"
proof -
  assume a: "inv0 s"
  have "tracked (snd (clear c s)) = tracked (snd (setFiles c [] s))"
    by (rule tracked_cong) (simp_all add: clear_files_uploading)
  then show ?thesis
    using inv0_setFiles [OF a, of c "[]"] by (simp add: inv0_def in_flight_def)
qed

lemma upload_finalize_fields [simp]:
  "creating (upload_finalize c s) = creating s"
  "racing (upload_finalize c s) = racing s"
  "aborted (upload_finalize c s) = aborted s"
  "upload_obs (upload_finalize c s) = upload_obs s"
  "calls (upload_finalize c s) = calls s"
  by (simp_all add: upload_finalize_def)

lemma inv0_upload_finalize: "inv0 s \<Longrightarrow> inv0 (upload_finalize c s)"
  by (simp add: upload_finalize_def inv0_clear)

lemma forkJoin_check_fields [simp]:
  "creating (forkJoin_check c s) = creating s"
  "racing (forkJoin_check c s) = racing s"
  "aborted (forkJoin_check c s) = aborted s"
  "calls (forkJoin_check c s) = calls s"
  by (simp_all add: forkJoin_check_def)

lemma inv0_forkJoin_check:
  assumes "tracked s" and "upload_obs s = Pending"
  shows "inv0 (forkJoin_check c s)"
proof (cases "creating s = [] \<and> racing s = []")
  case True
  let ?sc = "s \<lparr> upload_obs := Completed_with_value \<rparr>"
  have "tracked ?sc = tracked s" by (rule tracked_cong) simp_all
  then have "inv0 ?sc" using assms True by (simp add: inv0_def in_flight_def)
  then show ?thesis using True by (simp add: forkJoin_check_def inv0_upload_finalize)
next
  case False
  then show ?thesis using assms by (auto simp: forkJoin_check_def inv0_def in_flight_def)
qed

lemma inv0_attempt_failed:
  assumes "inv0 s" and "i \<in> set (in_flight s)"
  shows "inv0 (attempt_failed c i tgt e s)"
proof -
  let ?upd = "\<lambda>r. r \<lparr> status := Upload_failed,
                error := (if message e = Some ''Abort!'' then None else Some e) \<rparr>"
  let ?s2 = "setState c i ?upd (s \<lparr> creating := removeAll i (creating s),
                                     racing := filter (\<lambda>p. fst p \<noteq> i) (racing s) \<rparr>)"
  let ?s3 = "case tgt of None \<Rightarrow> ?s2
             | Some t \<Rightarrow> ?s2 \<lparr> calls := calls ?s2 @ [Delete t (kind_id (fileKind c))] \<rparr>"
  have t: "tracked s" and p: "upload_obs s = Pending"
    using assms by (auto simp: inv0_def)
  have t2: "tracked ?s2" by (rule tracked_settle [OF t assms(2)]) simp
  have "tracked ?s3 = tracked ?s2" by (rule tracked_cong) (simp_all split: option.splits)
  moreover have "upload_obs ?s3 = Pending" using p by (simp split: option.splits)
  ultimately have "inv0 (forkJoin_check c ?s3)" using t2 inv0_forkJoin_check by blast
  then show ?thesis unfolding attempt_failed_def Let_def .
qed

lemma inv0_attempt_succeeded:
  assumes "inv0 s" and "i \<in> fst ` set (racing s)"
  shows "inv0 (attempt_succeeded c i t s)"
proof -
  let ?upd = "\<lambda>r. r \<lparr> status := Uploaded, id_opt := Some t \<rparr>"
  let ?s1 = "s \<lparr> racing := filter (\<lambda>p. fst p \<noteq> i) (racing s) \<rparr>"
  let ?s1' = "s \<lparr> creating := removeAll i (creating s),
                  racing := filter (\<lambda>p. fst p \<noteq> i) (racing s) \<rparr>"
  have t: "tracked s" and p: "upload_obs s = Pending" and fl: "i \<in> set (in_flight s)"
    using assms by (auto simp: inv0_def in_flight_def)
  have "i \<notin> set (creating s)"
    using t assms(2) by (auto simp: tracked_def in_flight_def)
  then have eq: "?s1 = ?s1'" by simp
  have t2: "tracked (setState c i ?upd ?s1')" by (rule tracked_settle [OF t fl]) simp
  have "inv0 (forkJoin_check c (setState c i ?upd ?s1'))"
    by (rule inv0_forkJoin_check [OF t2]) (simp add: p)
  then show ?thesis unfolding attempt_succeeded_def Let_def eq .
qed


lemma attempt_failed_aborted [simp]:
  "aborted (attempt_failed c i tgt e s) = aborted s"
  by (simp add: attempt_failed_def Let_def split: option.splits)

lemma attempt_failed_racing [simp]:
  "racing (attempt_failed c i tgt e s) = filter (\<lambda>p. fst p \<noteq> i) (racing s)"
  by (simp add: attempt_failed_def Let_def split: option.splits)

lemma attempt_failed_creating [simp]:
  "creating (attempt_failed c i tgt e s) = removeAll i (creating s)"
  by (simp add: attempt_failed_def Let_def split: option.splits)

lemma attempt_succeeded_fields [simp]:
  "aborted (attempt_succeeded c i t s) = aborted s"
  "racing (attempt_succeeded c i t s) = filter (\<lambda>p. fst p \<noteq> i) (racing s)"
  "creating (attempt_succeeded c i t s) = creating s"
  by (simp_all add: attempt_succeeded_def Let_def)

lemma attempt_failed_removed:
  "attempt_failed c i tgt e (s \<lparr> creating := removeAll i (creating s), calls := cs \<rparr>)
     = attempt_failed c i tgt e (s \<lparr> calls := cs \<rparr>)"
  by (simp add: attempt_failed_def Let_def)

lemma inv0_calls: "inv0 (s \<lparr> calls := cs \<rparr>) = inv0 s"
proof -
  have "tracked (s \<lparr> calls := cs \<rparr>) = tracked s" by (rule tracked_cong) simp_all
  then show ?thesis by (simp add: inv0_def in_flight_def)
qed

lemma consistent_on_event:
  assumes "consistent s" and re: "readable_event ev"
  shows "consistent (on_event c ev s)"
proof (cases ev)
  case (CreateResolved i t)
  show ?thesis
  proof (cases "i \<in> set (creating s)")
    case False
    then show ?thesis using assms(1) CreateResolved by simp
  next
    case True
    let ?cs = "calls s @ [Upload (file_obj (files s ! i)) t (kind_id (fileKind c))]"
    let ?s1 = "s \<lparr> creating := removeAll i (creating s), calls := ?cs \<rparr>"
    have i0: "inv0 s" and ab: "aborted s \<longrightarrow> racing s = []"
      using assms(1) by (auto simp: consistent_def)
    show ?thesis
    proof (cases "aborted s")
      case True
      have fl: "i \<in> set (in_flight (s \<lparr> calls := ?cs \<rparr>))"
        using \<open>i \<in> set (creating s)\<close> by (simp add: in_flight_def)
      have "inv0 (attempt_failed c i (Some t) (Error ''Abort!'') (s \<lparr> calls := ?cs \<rparr>))"
        by (rule inv0_attempt_failed [OF _ fl]) (simp add: inv0_calls i0)
      then have "consistent (attempt_failed c i (Some t) (Error ''Abort!'') ?s1)"
        using ab True by (simp add: attempt_failed_removed consistent_def)
      then show ?thesis
        using CreateResolved \<open>i \<in> set (creating s)\<close> True by (simp add: Let_def)
    next
      case False
      let ?s2 = "?s1 \<lparr> racing := racing ?s1 @ [(i, t)] \<rparr>"
      have t: "tracked s" using i0 by (simp add: inv0_def)
      have d: "distinct (in_flight s)" and e: "set (in_flight s) = set (uploading_positions (files s))"
        using t by (auto simp: tracked_def)
      have ni: "i \<notin> fst ` set (racing s)"
        using d \<open>i \<in> set (creating s)\<close> by (auto simp: in_flight_def)
      have d2: "distinct (in_flight ?s2)"
        using d ni by (auto simp: in_flight_def distinct_removeAll)
      have e2: "set (in_flight ?s2) = set (in_flight s)"
        using \<open>i \<in> set (creating s)\<close> by (auto simp: in_flight_def)
      have "tracked ?s2"
        using t d2 e2 by (simp add: tracked_def)
      moreover have "in_flight ?s2 \<noteq> []" by (simp add: in_flight_def)
      moreover have "upload_obs s = Pending"
        using i0 \<open>i \<in> set (creating s)\<close> by (auto simp: inv0_def in_flight_def)
      ultimately have "consistent ?s2" using False i0 by (simp add: consistent_def inv0_def)
      then show ?thesis
        using CreateResolved \<open>i \<in> set (creating s)\<close> False by (simp add: Let_def)
    qed
  qed
next
  case (CreateRejected i e)
  show ?thesis
  proof (cases "i \<in> set (creating s)")
    case True
    then have "i \<in> set (in_flight s)" by (simp add: in_flight_def)
    then have "inv0 (attempt_failed c i None e s)"
      using assms(1) inv0_attempt_failed by (simp add: consistent_def)
    then show ?thesis using assms(1) re True CreateRejected by (auto simp: consistent_def)
  next
    case False
    then show ?thesis using assms(1) CreateRejected by simp
  qed
next
  case (UploadResolved i)
  show ?thesis
  proof (cases "map_of (racing s) i")
    case None
    then show ?thesis using assms(1) UploadResolved by simp
  next
    case (Some t)
    then have "i \<in> fst ` set (racing s)" by (metis map_of_eq_None_iff option.distinct(1))
    then have "inv0 (attempt_succeeded c i t s)"
      using assms(1) inv0_attempt_succeeded by (simp add: consistent_def)
    then show ?thesis using assms(1) Some UploadResolved by (auto simp: consistent_def)
  qed
next
  case (UploadRejected i e)
  show ?thesis
  proof (cases "map_of (racing s) i")
    case None
    then show ?thesis using assms(1) UploadRejected by simp
  next
    case (Some t)
    then have "i \<in> fst ` set (racing s)" by (metis map_of_eq_None_iff option.distinct(1))
    then have "i \<in> set (in_flight s)" by (simp add: in_flight_def)
    then have "inv0 (attempt_failed c i (Some t) e s)"
      using assms(1) inv0_attempt_failed by (simp add: consistent_def)
    then show ?thesis using assms(1) re Some UploadRejected by (auto simp: consistent_def)
  qed
qed

lemma abort_racing_inv0:
  "inv0 s \<Longrightarrow> racing s = rs \<Longrightarrow>
   inv0 (abort_racing c rs s) \<and> racing (abort_racing c rs s) = []
   \<and> creating (abort_racing c rs s) = creating s
   \<and> aborted (abort_racing c rs s) = aborted s"
proof (induction rs arbitrary: s)
  case Nil
  then show ?case by simp
next
  case (Cons p rs)
  obtain i t where p: "p = (i, t)" by (cases p)
  let ?s' = "attempt_failed c i (Some t) (Error ''Abort!'') s"
  have fl: "i \<in> set (in_flight s)" using Cons.prems(2) p by (auto simp: in_flight_def)
  have a: "inv0 ?s'" by (rule inv0_attempt_failed [OF Cons.prems(1) fl])
  have "distinct (map fst (racing s))"
    using Cons.prems(1) by (simp add: inv0_def tracked_def in_flight_def)
  then have ni: "i \<notin> fst ` set rs" using Cons.prems(2) p by auto
  then have b: "racing ?s' = rs"
    using Cons.prems(2) p by (auto simp: filter_id_conv)
  have "i \<notin> set (creating s)"
    using Cons.prems fl p by (auto simp: inv0_def tracked_def in_flight_def)
  then have c: "creating ?s' = creating s" by simp
  show ?case using Cons.IH [OF a b] p c by simp
qed

lemma consistent_abort:
  assumes "consistent s"
  shows "consistent (snd (abort c s))"
proof (cases "isUploading s \<and> upload_obs s = Pending")
  case False
  then show ?thesis using assms by (auto simp: abort_def)
next
  case True
  let ?s0 = "s \<lparr> aborted := True \<rparr>"
  have "tracked ?s0 = tracked s" by (rule tracked_cong) simp_all
  then have "inv0 ?s0" using assms by (simp add: consistent_def inv0_def in_flight_def)
  then have "consistent (abort_racing c (racing s) ?s0)"
    using abort_racing_inv0 [of ?s0 "racing s" c] by (simp add: consistent_def)
  then show ?thesis using True by (simp add: abort_def)
qed


lemma uploadFile_fields [simp]:
  "racing (uploadFile c meta i s) = racing s"
  "aborted (uploadFile c meta i s) = aborted s"
  "upload_obs (uploadFile c meta i s) = upload_obs s"
  by (simp_all add: uploadFile_def Let_def split: prod.splits)

lemma uploadFile_length [simp]:
  "length (files (uploadFile c meta i s)) = length (files s)"
  by (simp add: uploadFile_def Let_def setState_files split: prod.splits)

lemma tracked_uploadFile:
  assumes t: "tracked s" and len: "i < length (files s)"
  shows "tracked (uploadFile c meta i s)"
proof (cases "status (files s ! i) \<noteq> Idle \<and> status (files s ! i) \<noteq> Upload_failed")
  case True
  then show ?thesis using t by (simp add: uploadFile_def Let_def)
next
  case False
  let ?upd = "\<lambda>r. r \<lparr> status := Uploading, error := None \<rparr>"
  let ?s1 = "setState c i ?upd s"
  obtain name mime where nm: "parseFileName c (file_name (file_obj (files s ! i))) = (name, mime)"
    by (cases "parseFileName c (file_name (file_obj (files s ! i)))")
  let ?s2 = "?s1 \<lparr> calls := calls ?s1 @ [Create (kind_id (fileKind c)) name mime meta],
                    creating := creating ?s1 @ [i] \<rparr>"
  have eq: "uploadFile c meta i s = ?s2"
    by (simp only: uploadFile_def Let_def False if_False nm prod.case)
  have d0: "distinct (in_flight s)"
    and e0: "set (in_flight s) = set (uploading_positions (files s))"
    using t by (simp_all add: tracked_def)
  have ni: "i \<notin> set (in_flight s)"
    using False unfolding e0 set_uploading_positions by auto
  have fl: "set (in_flight ?s2) = insert i (set (in_flight s))"
    by (simp add: in_flight_def)
  have d: "distinct (in_flight ?s2)"
    using d0 ni by (simp add: in_flight_def)
  have f: "files ?s2 = (files s)[i := ?upd (files s ! i)]" by (simp add: setState_files)
  have e: "set (in_flight ?s2) = set (uploading_positions (files ?s2))"
    unfolding fl f using len e0 by (simp add: uploading_positions_update)
  have "uploading ?s2 = list_ex (\<lambda>f. status f = Uploading) (files ?s2)"
    unfolding f using len by (simp add: setState_uploading)
  then show ?thesis using d e unfolding eq by (simp add: tracked_def)
qed

lemma tracked_fold_uploadFile:
  "tracked s \<Longrightarrow> \<forall>i \<in> set is. i < length (files s) \<Longrightarrow>
   tracked (fold (uploadFile c meta) is s)"
proof (induction "is" arbitrary: s)
  case Nil
  then show ?case by simp
next
  case (Cons i "is")
  have "tracked (uploadFile c meta i s)" using Cons.prems by (simp add: tracked_uploadFile)
  then show ?case using Cons.IH [of "uploadFile c meta i s"] Cons.prems by simp
qed

lemma fold_uploadFile_fields [simp]:
  "racing (fold (uploadFile c meta) is s) = racing s"
  "aborted (fold (uploadFile c meta) is s) = aborted s"
  "upload_obs (fold (uploadFile c meta) is s) = upload_obs s"
  "length (files (fold (uploadFile c meta) is s)) = length (files s)"
  by (induction "is" arbitrary: s) simp_all

lemma consistent_upload:
  assumes "consistent s"
  shows "consistent (snd (upload c meta s))"
proof (cases "isUploading s")
  case True
  then show ?thesis using assms by (simp add: upload_def)
next
  case False
  let ?s0 = "s \<lparr> aborted := False, upload_obs := Pending \<rparr>"
  let ?s1 = "fold (uploadFile c meta) [0 ..< length (files ?s0)] ?s0"
  have "tracked ?s0 = tracked s" by (rule tracked_cong) simp_all
  then have t0: "tracked ?s0" using assms by (simp add: consistent_def inv0_def)
  have t1: "tracked ?s1" by (rule tracked_fold_uploadFile [OF t0]) simp
  have p1: "upload_obs ?s1 = Pending" and a1: "\<not> aborted ?s1" by simp_all
  have "inv0 (if files ?s1 = [] then upload_finalize c (?s1 \<lparr> upload_obs := Completed_empty \<rparr>)
              else forkJoin_check c ?s1)"
  proof (cases "files ?s1 = []")
    case True
    let ?sc = "?s1 \<lparr> upload_obs := Completed_empty \<rparr>"
    have "uploading_positions (files ?s1) = []"
      unfolding True by (simp add: uploading_positions_def)
    moreover have "set (in_flight ?s1) = set (uploading_positions (files ?s1))"
      using t1 by (simp only: tracked_def)
    ultimately have "in_flight ?s1 = []" by (simp only: set_empty list.set)
    then have nf: "in_flight ?sc = []" by (simp add: in_flight_def)
    have "tracked ?sc = tracked ?s1" by (rule tracked_cong) simp_all
    then have "inv0 ?sc" using t1 nf by (simp add: inv0_def)
    then show ?thesis using True by (simp add: inv0_upload_finalize)
  next
    case False
    then show ?thesis using inv0_forkJoin_check [OF t1 p1] by simp
  qed
  then show ?thesis
    using False by (simp add: upload_def Let_def consistent_def)
qed

lemma consistent_setFiles: "consistent s \<Longrightarrow> consistent (snd (setFiles c fs s))"
  by (simp add: consistent_def inv0_setFiles)

lemma consistent_clear: "consistent s \<Longrightarrow> consistent (snd (clear c s))"
  by (simp add: consistent_def inv0_clear)

lemma consistent_init: "consistent init"
  by (simp add: consistent_def inv0_def tracked_def in_flight_def uploading_positions_def init_def)

lemma consistent_uploading:
  "consistent s \<Longrightarrow> i \<in> set (in_flight s) \<Longrightarrow>
   uploading s \<and> list_ex (\<lambda>f. status f = Uploading) (files s)"
  by (auto simp: consistent_def inv0_def tracked_def list_ex_uploading)

lemma upload_finalize_uploading: "uploading s \<Longrightarrow> upload_finalize c s = s"
  by (simp add: upload_finalize_def clear_def setFiles_def isUploading_def)

lemma attempt_threw_uploading:
  "uploading s \<Longrightarrow>
   attempt_threw c tgt s
     = s \<lparr> creating := [], racing := [],
            calls := calls s @ (case tgt of None \<Rightarrow> []
                                | Some t \<Rightarrow> [Delete t (kind_id (fileKind c))]),
            upload_obs := Errored \<rparr>"
  by (cases tgt) (simp_all add: attempt_threw_def Let_def upload_finalize_uploading)

lemma stuck_attempt_threw:
  assumes "consistent s" and "i \<in> set (in_flight s)"
  shows "stuck (attempt_threw c tgt s)"
  using consistent_uploading [OF assms]
  by (simp add: attempt_threw_uploading stuck_def)

lemma stuck_on_event:
  assumes "consistent s"
  shows "on_event c ev s = s \<or> consistent (on_event c ev s) \<or> stuck (on_event c ev s)"
proof (cases "readable_event ev")
  case True
  then show ?thesis using assms consistent_on_event by blast
next
  case False
  show ?thesis
  proof (cases ev)
    case (CreateRejected i e)
    then have e: "\<not> readable e" using False by simp
    show ?thesis
    proof (cases "i \<in> set (creating s)")
      case True
      then have "i \<in> set (in_flight s)" by (simp add: in_flight_def)
      then show ?thesis
        using CreateRejected e True stuck_attempt_threw [OF assms, of i c None] by simp
    next
      case False
      then show ?thesis using CreateRejected by simp
    qed
  next
    case (UploadRejected i e)
    then have e: "\<not> readable e" using False by simp
    show ?thesis
    proof (cases "map_of (racing s) i")
      case None
      then show ?thesis using UploadRejected by simp
    next
      case (Some t)
      then have "i \<in> fst ` set (racing s)" by (metis map_of_eq_None_iff option.distinct(1))
      then have "i \<in> set (in_flight s)" by (simp add: in_flight_def)
      then show ?thesis
        using UploadRejected e Some stuck_attempt_threw [OF assms, of i c "Some t"] by simp
    qed
  qed (use False in simp_all)
qed

lemma stuck_step: "stuck s \<Longrightarrow> step c a s = s"
proof (cases a)
  case (Backend ev)
  assume "stuck s"
  then have "creating s = []" "racing s = []" by (simp_all add: stuck_def)
  then have "on_event c ev s = s" by (cases ev) simp_all
  then show ?thesis using Backend by simp
qed (simp_all add: stuck_def setFiles_def upload_def abort_def clear_def isUploading_def)

lemma consistent_step:
  "consistent s \<Longrightarrow> consistent (step c a s) \<or> stuck (step c a s)"
proof (cases a)
  case (Backend ev)
  assume "consistent s"
  then show ?thesis using Backend stuck_on_event [of s c ev] by auto
qed (simp_all add: consistent_setFiles consistent_upload consistent_abort consistent_clear)

lemma consistent_readable_step:
  "consistent s \<Longrightarrow> (\<forall>ev. a = Backend ev \<longrightarrow> readable_event ev) \<Longrightarrow>
   consistent (step c a s)"
  by (cases a)
    (simp_all add: consistent_setFiles consistent_upload consistent_abort consistent_clear
       consistent_on_event)

lemma inv_init: "inv init"
  by (simp add: inv_def consistent_init)

lemma inv_step: "inv s \<Longrightarrow> inv (step c a s)"
  using consistent_step [of s c a] stuck_step [of s c a] by (auto simp: inv_def)

lemma inv_fold_step: "inv s \<Longrightarrow> inv (fold (step c) as s)"
  by (induction as arbitrary: s) (simp_all add: inv_step)

lemma inv_run: "inv s \<Longrightarrow> inv (run c as s)"
  by (simp add: run_def inv_fold_step)

lemma inv_reachable: "inv (run c as init)"
  by (rule inv_run [OF inv_init])

lemma consistent_fold_step:
  "consistent s \<Longrightarrow> \<forall>ev. Backend ev \<in> set as \<longrightarrow> readable_event ev \<Longrightarrow>
   consistent (fold (step c) as s)"
proof (induction as arbitrary: s)
  case Nil
  then show ?case by simp
next
  case (Cons a as)
  have "consistent (step c a s)"
    using Cons.prems by (intro consistent_readable_step) auto
  then show ?case using Cons.IH Cons.prems(2) by simp
qed

lemma consistent_reachable:
  "\<forall>ev. Backend ev \<in> set as \<longrightarrow> readable_event ev \<Longrightarrow> consistent (run c as init)"
  by (simp add: run_def consistent_fold_step consistent_init)

lemma inv_pending: "inv s \<Longrightarrow> upload_obs s = Pending \<Longrightarrow> consistent s"
  by (auto simp: inv_def stuck_def)

lemma inv_empty_idle: "inv s \<Longrightarrow> files s = [] \<Longrightarrow> \<not> isUploading s"
  by (auto simp: inv_def stuck_def consistent_def inv0_def tracked_def isUploading_def)

subsection \<open>The done channel\<close>

lemma done_log_recompute:
  "done_log (recompute c s)
     = (if all_uploaded (files s) then done_log s @ [Some (notifications c (files s))]
        else done_log s)"
  by (simp add: recompute_def all_uploaded_def)

lemma done_log_setState:
  "done_log (setState c i upd s)
     = done_log s @ (if i < length (files s) \<and> all_uploaded ((files s)[i := upd (files s ! i)])
                     then [Some (notifications c ((files s)[i := upd (files s ! i)]))] else [])"
  by (simp add: setState_def done_log_recompute)

lemma not_all_uploaded_update:
  "i < length fs \<Longrightarrow> status r \<noteq> Uploaded \<Longrightarrow> \<not> all_uploaded (fs[i := r])"
  by (auto simp: all_uploaded_def list_all_iff set_update_memI)

lemma done_log_setState_other:
  "(\<And>r. status (upd r) \<noteq> Uploaded) \<Longrightarrow> done_log (setState c i upd s) = done_log s"
  by (simp add: done_log_setState not_all_uploaded_update)





lemma done_count_append [simp]:
  "done_count (s \<lparr> done_log := done_log s0 @ xs \<rparr>)
     = done_count s0 + length (filter (\<lambda>x. x \<noteq> None) xs)"
  by (simp add: done_count_def)































subsection \<open>The end of an attempt\<close>

lemma failed_record_eq:
  "failed_record e = (\<lambda>r. r \<lparr> status := Upload_failed,
                               error := (if message e = Some ''Abort!'' then None else Some e) \<rparr>)"
  by (rule ext) (simp only: failed_record_def)

lemma uploaded_record_eq:
  "uploaded_record t = (\<lambda>r. r \<lparr> status := Uploaded, id_opt := Some t \<rparr>)"
  by (rule ext) (simp only: uploaded_record_def)

lemma attempt_failed_eq:
  "attempt_failed c i tgt e s = forkJoin_check c (ended_failed c i tgt e s)"
  unfolding attempt_failed_def ended_failed_def Let_def failed_record_eq ..

lemma attempt_succeeded_eq:
  "attempt_succeeded c i t s = forkJoin_check c (ended_succeeded c i t s)"
  unfolding attempt_succeeded_def ended_succeeded_def Let_def uploaded_record_eq ..

lemma forkJoin_check_waiting:
  "creating s \<noteq> [] \<or> racing s \<noteq> [] \<Longrightarrow> forkJoin_check c s = s"
  by (auto simp: forkJoin_check_def)

lemma forkJoin_check_kept:
  "creating s = [] \<Longrightarrow> racing s = [] \<Longrightarrow> \<not> allowRepeatedUploads c \<Longrightarrow>
   forkJoin_check c s = s \<lparr> upload_obs := Completed_with_value \<rparr>"
  by (simp add: forkJoin_check_def upload_finalize_def)

lemma forkJoin_check_cleared:
  "creating s = [] \<Longrightarrow> racing s = [] \<Longrightarrow> allowRepeatedUploads c \<Longrightarrow> \<not> uploading s \<Longrightarrow>
   forkJoin_check c s = s \<lparr> files := [], error_log := error_log s @ [None],
                             done_log := done_log s @ [None], clear_log := clear_log s + 1,
                             upload_obs := Completed_with_value \<rparr>"
  by (simp add: forkJoin_check_def upload_finalize_def clear_def setFiles_def validateFiles_def
        recompute_def isUploading_def Let_def split: option.splits)

lemma ended_failed_fields [simp]:
  "creating (ended_failed c i tgt e s) = removeAll i (creating s)"
  "racing (ended_failed c i tgt e s) = filter (\<lambda>p. fst p \<noteq> i) (racing s)"
  "aborted (ended_failed c i tgt e s) = aborted s"
  "upload_obs (ended_failed c i tgt e s) = upload_obs s"
  "clear_log (ended_failed c i tgt e s) = clear_log s"
  "done_log (ended_failed c i tgt e s) = done_log s"
  "files (ended_failed c i tgt e s) = (files s)[i := failed_record e (files s ! i)]"
  "calls (ended_failed c i tgt e s)
     = calls s @ (case tgt of None \<Rightarrow> [] | Some t \<Rightarrow> [Delete t (kind_id (fileKind c))])"
  by (simp_all add: ended_failed_def Let_def setState_files done_log_setState_other
        failed_record_def split: option.splits)

lemma ended_succeeded_fields [simp]:
  "creating (ended_succeeded c i t s) = creating s"
  "racing (ended_succeeded c i t s) = filter (\<lambda>p. fst p \<noteq> i) (racing s)"
  "aborted (ended_succeeded c i t s) = aborted s"
  "upload_obs (ended_succeeded c i t s) = upload_obs s"
  "clear_log (ended_succeeded c i t s) = clear_log s"
  "files (ended_succeeded c i t s) = (files s)[i := uploaded_record t (files s ! i)]"
  "calls (ended_succeeded c i t s) = calls s"
  by (simp_all add: ended_succeeded_def setState_files)

lemma error_log_setState:
  "\<exists>e. error_log (setState c i upd s) = error_log s @ e"
  by (simp add: setState_def recompute_def split: option.splits)

lemma error_log_ended_failed:
  "\<exists>es. error_log (ended_failed c i tgt e s) = error_log s @ es"
proof -
  obtain es where "error_log (setState c i (failed_record e)
                 (s \<lparr> creating := removeAll i (creating s),
                       racing := filter (\<lambda>p. fst p \<noteq> i) (racing s) \<rparr>)) = error_log s @ es"
    using error_log_setState [of c i "failed_record e"
        "s \<lparr> creating := removeAll i (creating s), racing := filter (\<lambda>p. fst p \<noteq> i) (racing s) \<rparr>"]
    by auto
  then show ?thesis by (auto simp: ended_failed_def Let_def split: option.splits)
qed

lemma error_log_ended_succeeded:
  "\<exists>es. error_log (ended_succeeded c i t s) = error_log s @ es"
  using error_log_setState [of c i "uploaded_record t"
        "s \<lparr> racing := filter (\<lambda>p. fst p \<noteq> i) (racing s) \<rparr>"]
  by (simp add: ended_succeeded_def)

lemma done_log_ended_succeeded:
  "done_log (ended_succeeded c i t s)
     = done_log s @ (if i < length (files s)
                        \<and> all_uploaded ((files s)[i := uploaded_record t (files s ! i)])
                     then [Some (notifications c ((files s)[i := uploaded_record t (files s ! i)]))]
                     else [])"
  by (simp add: ended_succeeded_def done_log_setState)

lemma tracked_ended_failed:
  "tracked s \<Longrightarrow> i \<in> set (in_flight s) \<Longrightarrow> tracked (ended_failed c i tgt e s)"
proof -
  assume t: "tracked s" and i: "i \<in> set (in_flight s)"
  let ?s2 = "setState c i (failed_record e)
               (s \<lparr> creating := removeAll i (creating s),
                     racing := filter (\<lambda>p. fst p \<noteq> i) (racing s) \<rparr>)"
  have t2: "tracked ?s2" by (rule tracked_settle [OF t i]) (simp add: failed_record_def)
  have "tracked (ended_failed c i tgt e s) = tracked ?s2"
    by (rule tracked_cong) (simp_all add: ended_failed_def Let_def split: option.splits)
  then show ?thesis using t2 by simp
qed

lemma tracked_ended_succeeded:
  assumes t: "tracked s" and i: "i \<in> fst ` set (racing s)"
  shows "tracked (ended_succeeded c i t s)"
proof -
  have fl: "i \<in> set (in_flight s)" using i by (simp add: in_flight_def)
  have "i \<notin> set (creating s)" using t i by (auto simp: tracked_def in_flight_def)
  then have eq: "s \<lparr> racing := filter (\<lambda>p. fst p \<noteq> i) (racing s) \<rparr>
       = s \<lparr> creating := removeAll i (creating s),
             racing := filter (\<lambda>p. fst p \<noteq> i) (racing s) \<rparr>" by simp
  show ?thesis
    unfolding ended_succeeded_def eq
    by (rule tracked_settle [OF t fl]) (simp add: uploaded_record_def)
qed


lemma forkJoin_check_pending:
  "upload_obs s = Pending \<Longrightarrow> upload_obs (forkJoin_check c s) = Pending \<Longrightarrow>
   forkJoin_check c s = s"
  by (auto simp: forkJoin_check_def)

lemma cleared_by_forkJoin:
  assumes "tracked s" and "allowRepeatedUploads c" and "upload_obs s = Pending"
    and "upload_obs (forkJoin_check c s) \<noteq> Pending"
  shows "files (forkJoin_check c s) = []
    \<and> done_log (forkJoin_check c s) = done_log s @ [None]
    \<and> error_log (forkJoin_check c s) = error_log s @ [None]
    \<and> clear_log (forkJoin_check c s) = clear_log s + 1"
proof -
  have "\<not> (creating s \<noteq> [] \<or> racing s \<noteq> [])"
  proof
    assume "creating s \<noteq> [] \<or> racing s \<noteq> []"
    then have "forkJoin_check c s = s" by (rule forkJoin_check_waiting)
    then show False using assms(3,4) by simp
  qed
  then have e: "creating s = []" "racing s = []" by simp_all
  then have "in_flight s = []" by (simp add: in_flight_def)
  then have "\<not> uploading s" using assms(1) by (simp add: tracked_idle)
  then show ?thesis using e assms(2) by (simp add: forkJoin_check_cleared)
qed

lemma cleared_by_attempt_failed:
  assumes "inv0 s" and "i \<in> set (in_flight s)" and "allowRepeatedUploads c"
    and "upload_obs (attempt_failed c i tgt e s) \<noteq> Pending"
  shows "files (attempt_failed c i tgt e s) = []
    \<and> done_log (attempt_failed c i tgt e s) = done_log s @ [None]
    \<and> (\<exists>es. error_log (attempt_failed c i tgt e s) = error_log s @ es @ [None])
    \<and> clear_log (attempt_failed c i tgt e s) = clear_log s + 1"
proof -
  let ?s3 = "ended_failed c i tgt e s"
  have t: "tracked ?s3" using assms(1,2) by (simp add: inv0_def tracked_ended_failed)
  have p: "upload_obs ?s3 = Pending" using assms(1,2) by (auto simp: inv0_def)
  obtain es where es: "error_log ?s3 = error_log s @ es"
    using error_log_ended_failed by blast
  show ?thesis
    using cleared_by_forkJoin [OF t assms(3) p] assms(4) es
    by (simp add: attempt_failed_eq)
qed

lemma kept_by_attempt_failed:
  assumes "inv0 s" and "i \<in> set (in_flight s)"
    and "upload_obs (attempt_failed c i tgt e s) = Pending"
  shows "attempt_failed c i tgt e s = ended_failed c i tgt e s"
proof -
  have "upload_obs (ended_failed c i tgt e s) = Pending" using assms(1,2) by (auto simp: inv0_def)
  then show ?thesis
    using assms(3) by (simp add: attempt_failed_eq forkJoin_check_pending)
qed

lemma cleared_by_attempt_succeeded:
  assumes "inv0 s" and "map_of (racing s) i = Some t" and "allowRepeatedUploads c"
    and "upload_obs (attempt_succeeded c i t s) \<noteq> Pending"
  shows "files (attempt_succeeded c i t s) = []
    \<and> done_log (attempt_succeeded c i t s)
        = done_log s @ (if completes_batch (Backend (UploadResolved i)) s
                        then [Some (notifications c ((files s)[i := uploaded_record t (files s ! i)]))]
                        else []) @ [None]
    \<and> (\<exists>es. error_log (attempt_succeeded c i t s) = error_log s @ es @ [None])
    \<and> clear_log (attempt_succeeded c i t s) = clear_log s + 1"
proof -
  let ?s2 = "ended_succeeded c i t s"
  have i: "i \<in> fst ` set (racing s)"
    using assms(2) by (metis map_of_eq_None_iff option.distinct(1))
  have t: "tracked ?s2" using assms(1) i by (simp add: inv0_def tracked_ended_succeeded)
  have p: "upload_obs ?s2 = Pending" using assms(1) i by (auto simp: inv0_def in_flight_def)
  obtain es where es: "error_log ?s2 = error_log s @ es"
    using error_log_ended_succeeded by blast
  have cb: "completes_batch (Backend (UploadResolved i)) s
     = (i < length (files s) \<and> all_uploaded ((files s)[i := uploaded_record t (files s ! i)]))"
    using assms(2) by (simp add: completes_batch_def uploaded_record_def)
  show ?thesis
    using cleared_by_forkJoin [OF t assms(3) p] assms(4) es
    by (simp add: attempt_succeeded_eq done_log_ended_succeeded cb)
qed

lemma cleared_by_abort_racing:
  "inv0 s \<Longrightarrow> racing s = rs \<Longrightarrow> upload_obs s = Pending \<Longrightarrow> allowRepeatedUploads c \<Longrightarrow>
   upload_obs (abort_racing c rs s) \<noteq> Pending \<Longrightarrow>
   files (abort_racing c rs s) = []
    \<and> done_log (abort_racing c rs s) = done_log s @ [None]
    \<and> (\<exists>es. error_log (abort_racing c rs s) = error_log s @ es @ [None])
    \<and> clear_log (abort_racing c rs s) = clear_log s + 1"
proof (induction rs arbitrary: s)
  case Nil
  then show ?case by simp
next
  case (Cons p rs)
  obtain i t where p: "p = (i, t)" by (cases p)
  let ?s' = "attempt_failed c i (Some t) (Error ''Abort!'') s"
  have fl: "i \<in> set (in_flight s)" using Cons.prems(2) p by (auto simp: in_flight_def)
  have a: "inv0 ?s'" by (rule inv0_attempt_failed [OF Cons.prems(1) fl])
  have "distinct (map fst (racing s))"
    using Cons.prems(1) by (simp add: inv0_def tracked_def in_flight_def)
  then have "i \<notin> fst ` set rs" using Cons.prems(2) p by auto
  then have b: "racing ?s' = rs" using Cons.prems(2) p by (auto simp: filter_id_conv)
  have r: "abort_racing c (p # rs) s = abort_racing c rs ?s'" using p by simp
  show ?case
  proof (cases "upload_obs ?s' = Pending")
    case True
    have eq: "?s' = ended_failed c i (Some t) (Error ''Abort!'') s"
      by (rule kept_by_attempt_failed [OF Cons.prems(1) fl True])
    obtain es where es: "error_log ?s' = error_log s @ es"
      using error_log_ended_failed [of c i "Some t" "Error ''Abort!''" s] eq by auto
    have d: "done_log ?s' = done_log s" "clear_log ?s' = clear_log s"
      by (subst eq, simp)+
    have ih: "files (abort_racing c rs ?s') = []
      \<and> done_log (abort_racing c rs ?s') = done_log ?s' @ [None]
      \<and> (\<exists>es. error_log (abort_racing c rs ?s') = error_log ?s' @ es @ [None])
      \<and> clear_log (abort_racing c rs ?s') = clear_log ?s' + 1"
      using Cons.IH [OF a b True Cons.prems(4)] Cons.prems(5) r by simp
    then obtain es' where "error_log (abort_racing c rs ?s') = error_log s @ (es @ es') @ [None]"
      using es by auto
    then show ?thesis using ih d r by (metis)
  next
    case False
    have "in_flight ?s' = []" using a False by (simp add: inv0_def)
    then have "rs = []" using b by (simp add: in_flight_def)
    then show ?thesis
      using cleared_by_attempt_failed [OF Cons.prems(1) fl Cons.prems(4) False] p by simp
  qed
qed


lemma consistent_pending_uploading: "consistent s \<Longrightarrow> upload_obs s = Pending \<Longrightarrow> isUploading s"
  using tracked_not_uploading [of s] by (auto simp: consistent_def inv0_def isUploading_def)

lemma upload_obs_attempt_threw [simp]: "upload_obs (attempt_threw c tgt s) = Errored"
  by (cases tgt) (simp_all add: attempt_threw_def Let_def)

lemma cleared_by_on_event:
  assumes r: "allowRepeatedUploads c" and i: "consistent s" and p: "upload_obs s = Pending"
    and q: "upload_obs (on_event c ev s) \<noteq> Pending"
    and ne: "\<not> is_errored (upload_obs (on_event c ev s))"
  shows "files (on_event c ev s) = []
    \<and> clear_log (on_event c ev s) = clear_log s + 1
    \<and> (\<exists>es. error_log (on_event c ev s) = error_log s @ es @ [None])
    \<and> (\<exists>ns. done_log (on_event c ev s)
             = done_log s @ (if completes_batch (Backend ev) s then [Some ns] else []) @ [None]
           \<and> length ns = length (files s))"
proof -
  have i0: "inv0 s" using i by (simp add: consistent_def)
  show ?thesis
  proof (cases ev)
    case (CreateResolved j t)
    let ?cs = "calls s @ [Upload (file_obj (files s ! j)) t (kind_id (fileKind c))]"
    let ?sc = "s \<lparr> calls := ?cs \<rparr>"
    have j: "j \<in> set (creating s)" using CreateResolved p q by (auto split: if_splits)
    have ab: "aborted s" using CreateResolved p q j by (auto simp: Let_def split: if_splits)
    have eq: "on_event c ev s = attempt_failed c j (Some t) (Error ''Abort!'') ?sc"
      using CreateResolved j ab by (simp add: Let_def attempt_failed_removed)
    have fl: "j \<in> set (in_flight ?sc)" using j by (simp add: in_flight_def)
    have ic: "inv0 ?sc" using i0 by (simp add: inv0_calls)
    have nc: "\<not> completes_batch (Backend ev) s"
      using CreateResolved by (simp add: completes_batch_def)
    show ?thesis
      using cleared_by_attempt_failed [OF ic fl r, of "Some t" "Error ''Abort!''"] q nc
      unfolding eq by (auto intro: Ex_list_of_length)
  next
    case (CreateRejected j e)
    have j: "j \<in> set (creating s)" using CreateRejected p q by (auto split: if_splits)
    then have fl: "j \<in> set (in_flight s)" by (simp add: in_flight_def)
    have "readable e" using CreateRejected j ne by (cases "readable e") simp_all
    then have eq: "on_event c ev s = attempt_failed c j None e s" using CreateRejected j by simp
    have nc: "\<not> completes_batch (Backend ev) s"
      using CreateRejected by (simp add: completes_batch_def)
    show ?thesis
      using cleared_by_attempt_failed [OF i0 fl r, of None e] q nc
      unfolding eq by (auto intro: Ex_list_of_length)
  next
    case (UploadResolved j)
    obtain t where t: "map_of (racing s) j = Some t"
      using UploadResolved p q by (cases "map_of (racing s) j") auto
    have eq: "on_event c ev s = attempt_succeeded c j t s" using UploadResolved t by simp
    have len: "length (notifications c ((files s)[j := uploaded_record t (files s ! j)]))
                 = length (files s)"
      by (simp add: notifications_def)
    have q': "upload_obs (attempt_succeeded c j t s) \<noteq> Pending" using q unfolding eq .
    have cb: "completes_batch (Backend ev) s = completes_batch (Backend (UploadResolved j)) s"
      using UploadResolved by simp
    show ?thesis
      using cleared_by_attempt_succeeded [OF i0 t r q'] len
      unfolding eq cb by (auto intro: Ex_list_of_length)
  next
    case (UploadRejected j e)
    obtain t where t: "map_of (racing s) j = Some t"
      using UploadRejected p q by (cases "map_of (racing s) j") auto
    then have "j \<in> fst ` set (racing s)" by (metis map_of_eq_None_iff option.distinct(1))
    then have fl: "j \<in> set (in_flight s)" by (simp add: in_flight_def)
    have "readable e" using UploadRejected t ne by (cases "readable e") simp_all
    then have eq: "on_event c ev s = attempt_failed c j (Some t) e s"
      using UploadRejected t by simp
    have nc: "\<not> completes_batch (Backend ev) s"
      using UploadRejected by (simp add: completes_batch_def)
    show ?thesis
      using cleared_by_attempt_failed [OF i0 fl r, of "Some t" e] q nc
      unfolding eq by (auto intro: Ex_list_of_length)
  qed
qed

lemma uploadFile_cases:
  "uploadFile c meta i s = s
   \<or> length (creating (uploadFile c meta i s)) = Suc (length (creating s))"
  by (simp add: uploadFile_def Let_def split: prod.splits)

lemma fold_uploadFile_cases:
  "fold (uploadFile c meta) is s = s
   \<or> length (creating s) < length (creating (fold (uploadFile c meta) is s))"
proof (induction "is" arbitrary: s)
  case Nil
  then show ?case by simp
next
  case (Cons i "is")
  show ?case
    using uploadFile_cases [of c meta i s] Cons.IH [of "uploadFile c meta i s"] by auto
qed

lemma upload_without_attempt:
  assumes "consistent s" and "\<not> isUploading s" and "upload_obs (snd (upload c meta s)) \<noteq> Pending"
  shows "snd (upload c meta s)
     = upload_finalize c (s \<lparr> aborted := False,
          upload_obs := (if files s = [] then Completed_empty else Completed_with_value) \<rparr>)"
proof -
  let ?s0 = "s \<lparr> aborted := False, upload_obs := Pending \<rparr>"
  let ?s1 = "fold (uploadFile c meta) [0 ..< length (files ?s0)] ?s0"
  have nf: "in_flight s = []"
    using assms(1,2) by (simp add: consistent_def inv0_def tracked_not_uploading isUploading_def)
  have i': "consistent (snd (upload c meta s))" using assms(1) by (rule consistent_upload)
  then have "in_flight (snd (upload c meta s)) = []"
    using assms(3) by (simp add: consistent_def inv0_def)
  moreover have "creating (snd (upload c meta s)) = creating ?s1"
    "racing (snd (upload c meta s)) = racing ?s1"
    using assms(2) by (simp_all add: upload_def Let_def)
  ultimately have e: "creating ?s1 = []" "racing ?s1 = []" by (simp_all add: in_flight_def)
  have "creating ?s0 = []" using nf by (simp add: in_flight_def)
  then have s1: "?s1 = ?s0"
    using fold_uploadFile_cases [of c meta "[0 ..< length (files ?s0)]" ?s0] e(1) by auto
  have r0: "racing ?s0 = []" "creating ?s0 = []" using nf by (simp_all add: in_flight_def)
  show ?thesis
    using assms(2) r0 unfolding upload_def Let_def s1
    by (simp add: forkJoin_check_def)
qed

lemma cleared_by_upload:
  assumes "allowRepeatedUploads c" and "consistent s" and "\<not> isUploading s"
    and "upload_obs (snd (upload c meta s)) \<noteq> Pending"
  shows "files (snd (upload c meta s)) = []
    \<and> clear_log (snd (upload c meta s)) = clear_log s + 1
    \<and> error_log (snd (upload c meta s)) = error_log s @ [None]
    \<and> done_log (snd (upload c meta s)) = done_log s @ [None]"
  using assms(1,3) unfolding upload_without_attempt [OF assms(2,3,4)]
  by (simp add: upload_finalize_def clear_def setFiles_def validateFiles_def recompute_def
        isUploading_def Let_def split: option.splits)

text \<open>
  C10. With repeated uploads allowed, the step that completes an upload cycle (its
  observable ends without having failed: by the
  settlement of its last attempt, the abort that ends its last attempts, or Start
  upload itself when no record needs an attempt) runs the automatic clear: the batch is
  empty afterwards, one clear notification has been emitted, the last value emitted on
  the error channel is \<open>undefined\<close>, and the last value emitted on the done channel is
  \<open>undefined\<close>, directly after the notification of the batch (one entry per record)
  when the step completed the batch, and as the only emission of the step otherwise.
\<close>

theorem auto_clear:
  assumes "allowRepeatedUploads c" and "inv s"
    and "upload_obs s = Pending \<or> (\<exists>meta. a = StartUpload meta)"
    and "upload_obs (step c a s) \<noteq> Pending"
    and "\<not> is_errored (upload_obs (step c a s))"
  shows "files (step c a s) = []
    \<and> clear_log (step c a s) = clear_log s + 1
    \<and> (\<exists>es. error_log (step c a s) = error_log s @ es @ [None])
    \<and> (\<exists>ns. done_log (step c a s)
             = done_log s @ (if completes_batch a s then [Some ns] else []) @ [None]
           \<and> length ns = length (files s))"
proof -
  have "\<not> stuck s"
  proof
    assume st: "stuck s"
    then have "step c a s = s" by (rule stuck_step)
    then show False using st assms(5) by (simp add: stuck_def)
  qed
  then have cs: "consistent s" using assms(2) by (simp add: inv_def)
  show ?thesis
  proof (cases "upload_obs s = Pending")
  case True
  have u: "isUploading s" using cs True by (rule consistent_pending_uploading)
  show ?thesis
  proof (cases a)
    case (SetFiles fs)
    then show ?thesis using True assms(4) u by (simp add: setFiles_def)
  next
    case (StartUpload meta)
    then show ?thesis using True assms(4) u by (simp add: upload_def)
  next
    case Abort
    let ?s0 = "s \<lparr> aborted := True \<rparr>"
    have eq: "step c a s = abort_racing c (racing s) ?s0"
      using Abort u True by (simp add: abort_def)
    have "tracked ?s0 = tracked s" by (rule tracked_cong) simp_all
    then have i0: "inv0 ?s0" using cs by (simp add: consistent_def inv0_def in_flight_def)
    have nc: "\<not> completes_batch a s" using Abort by (simp add: completes_batch_def)
    show ?thesis
      using cleared_by_abort_racing [OF i0 _ _ assms(1), of "racing s"] True assms(4) nc
      unfolding eq by (auto intro: Ex_list_of_length)
  next
    case Clear
    then show ?thesis using True assms(4) u by (simp add: clear_def setFiles_def)
  next
    case (Backend ev)
    then show ?thesis
      using cleared_by_on_event [OF assms(1) cs True, of ev] assms(4,5) by simp
  qed
next
  case False
  then obtain meta where a: "a = StartUpload meta" using assms(3) by auto
  have "in_flight s = []" using cs False by (simp add: consistent_def inv0_def)
  then have nu: "\<not> isUploading s"
    using cs by (simp add: consistent_def inv0_def tracked_idle isUploading_def)
  have q: "upload_obs (snd (upload c meta s)) \<noteq> Pending" using assms(4) a by simp
  have nc: "\<not> completes_batch a s" using a by (simp add: completes_batch_def)
  show ?thesis
    using cleared_by_upload [OF assms(1) cs nu q] nc a
    by (auto intro: Ex_list_of_length)
qed
qed

theorem auto_clear_witness:
  "allowRepeatedUploads repeat_config \<and> inv repeat_one_uploaded
   \<and> upload_obs repeat_one_uploaded = Pending
   \<and> upload_obs (step repeat_config (Backend (UploadResolved 1)) repeat_one_uploaded)
       = Completed_with_value
   \<and> completes_batch (Backend (UploadResolved 1)) repeat_one_uploaded
   \<and> files (step repeat_config (Backend (UploadResolved 1)) repeat_one_uploaded) = []
   \<and> clear_log (step repeat_config (Backend (UploadResolved 1)) repeat_one_uploaded) = 1
   \<and> done_log (step repeat_config (Backend (UploadResolved 1)) repeat_one_uploaded)
       = [Some [\<lparr> dn_id = Some ''id0'', dn_kind = ''kind'' \<rparr>,
                \<lparr> dn_id = Some ''id1'', dn_kind = ''kind'' \<rparr>], None]
   \<and> error_log (step repeat_config (Backend (UploadResolved 1)) repeat_one_uploaded) = [None]
   \<and> inv init
   \<and> upload_obs (step repeat_config (StartUpload None) init) = Completed_empty
   \<and> files (step repeat_config (StartUpload None) init) = []
   \<and> clear_log (step repeat_config (StartUpload None) init) = 1
   \<and> done_log (step repeat_config (StartUpload None) init) = [None]"
proof -
  have h1: "allowRepeatedUploads repeat_config" by code_simp
  have h2: "inv repeat_one_uploaded" by code_simp
  have h3: "upload_obs repeat_one_uploaded = Pending" by code_simp
  have h4: "upload_obs (step repeat_config (Backend (UploadResolved 1)) repeat_one_uploaded)
       = Completed_with_value" by code_simp
  then have h4': "upload_obs (step repeat_config (Backend (UploadResolved 1)) repeat_one_uploaded)
       \<noteq> Pending"
    and h4'': "\<not> is_errored
       (upload_obs (step repeat_config (Backend (UploadResolved 1)) repeat_one_uploaded))"
    by simp_all
  have h5: "completes_batch (Backend (UploadResolved 1)) repeat_one_uploaded" by code_simp
  have h6: "clear_log repeat_one_uploaded = 0" "clear_log init = 0" by code_simp+
  have h7: "done_log (step repeat_config (Backend (UploadResolved 1)) repeat_one_uploaded)
       = [Some [\<lparr> dn_id = Some ''id0'', dn_kind = ''kind'' \<rparr>,
                \<lparr> dn_id = Some ''id1'', dn_kind = ''kind'' \<rparr>], None]" by code_simp
  have h8: "error_log (step repeat_config (Backend (UploadResolved 1)) repeat_one_uploaded)
       = [None]" by code_simp
  have h9: "inv init" by code_simp
  have h10: "upload_obs (step repeat_config (StartUpload None) init) = Completed_empty"
    by code_simp
  then have h10': "upload_obs (step repeat_config (StartUpload None) init) \<noteq> Pending"
    and h10'': "\<not> is_errored (upload_obs (step repeat_config (StartUpload None) init))"
    by simp_all
  have h11: "done_log (step repeat_config (StartUpload None) init) = [None]" by code_simp
  have p1: "upload_obs repeat_one_uploaded = Pending
            \<or> (\<exists>meta. Backend (UploadResolved 1) = StartUpload meta)" using h3 by simp
  have p2: "upload_obs init = Pending \<or> (\<exists>meta. StartUpload None = StartUpload meta)" by simp
  have a: "files (step repeat_config (Backend (UploadResolved 1)) repeat_one_uploaded) = []"
    and b: "clear_log (step repeat_config (Backend (UploadResolved 1)) repeat_one_uploaded)
             = clear_log repeat_one_uploaded + 1"
    using auto_clear [OF h1 h2 p1 h4' h4''] by blast+
  have c: "files (step repeat_config (StartUpload None) init) = []"
    and d: "clear_log (step repeat_config (StartUpload None) init) = clear_log init + 1"
    using auto_clear [OF h1 h9 p2 h10' h10''] by blast+
  show ?thesis using h1 h2 h3 h4 h5 h6 h7 h8 h9 h10 h11 a b c d by simp
qed

subsection \<open>The completion signal\<close>




text \<open>
  C2 fails on the code. When a backend promise rejects with \<open>undefined\<close> or \<open>null\<close>,
  line 201 throws inside \<open>catchError\<close>: the failure is not written to the record, which
  stays \<open>uploading\<close>, and the observable returned by Start upload fails instead of
  resolving; \<open>forkJoin\<close> stops listening to the other attempts, whose records stay
  \<open>uploading\<close> too, whatever their promises answer later. From then on Is uploading()
  is true for good, so Set files throws. Evaluated on a batch of one file whose
  \<open>create\<close> rejects with \<open>undefined\<close>, and on a batch of two files of which the first
  upload rejects with \<open>undefined\<close> while the second is in flight.
\<close>

theorem upload_rejection_unreadable:
  "upload_obs (step example_config (Backend (CreateRejected 0 Nullish)) uploading_state) = Errored
   \<and> files (step example_config (Backend (CreateRejected 0 Nullish)) uploading_state)
       = [\<lparr> file_obj = small_file, status = Uploading, id_opt = None, error = None \<rparr>]
   \<and> isUploading (step example_config (Backend (CreateRejected 0 Nullish)) uploading_state)
   \<and> fst (setFiles example_config [other_file]
              (step example_config (Backend (CreateRejected 0 Nullish)) uploading_state))
       = Some (Error ''Cannot update files while uploading'')
   \<and> upload_obs (step example_config (Backend (UploadRejected 0 Nullish)) two_racing) = Errored
   \<and> map status (files (step example_config (Backend (UploadRejected 0 Nullish)) two_racing))
       = [Uploading, Uploading]
   \<and> calls (step example_config (Backend (UploadRejected 0 Nullish)) two_racing)
       = calls two_racing @ [Delete ''id0'' ''kind'']
   \<and> step example_config (Backend (UploadResolved 1))
        (step example_config (Backend (UploadRejected 0 Nullish)) two_racing)
       = step example_config (Backend (UploadRejected 0 Nullish)) two_racing"
  by code_simp

subsection \<open>Abort\<close>




lemma on_event_aborted [simp]: "aborted (on_event c ev s) = aborted s"
proof (cases ev)
  case (CreateResolved i t)
  then show ?thesis by (simp add: Let_def)
next
  case (CreateRejected i e)
  then show ?thesis by (simp add: attempt_threw_def Let_def split: option.splits)
next
  case (UploadResolved i)
  then show ?thesis by (simp split: option.splits)
next
  case (UploadRejected i e)
  then show ?thesis by (simp add: attempt_threw_def Let_def split: option.splits)
qed

lemma fold_on_event_aborted [simp]: "aborted (fold (on_event c) evs s) = aborted s"
  by (induction evs arbitrary: s) simp_all






end
